theory Spec2Isabelle
  imports Main "HOL-Library.Sublist" "HOL-Library.AList" "HOL-Library.List_Lexorder"
begin

section \<open>JavaScript values used by the hierarchy visualizer\<close>

text \<open>
  A JavaScript string is a sequence of UTF-16 code units. No arithmetic is done on code
  units, so each one is a natural number; \<open>js\<close> turns an ASCII literal into such a
  sequence.
\<close>

type_synonym jsstring = "nat list"

definition js :: "string \<Rightarrow> jsstring" where
  "js s = map of_char s"

text \<open>The em dash U+2014, the sentinel name of a group of blank values.\<close>

definition em_dash :: jsstring where
  "em_dash = [8212]"

text \<open>
  \<open>String.prototype.trim\<close> removes the code units of ECMAScript's WhiteSpace and
  LineTerminator productions from both ends.
\<close>

definition isWhiteSpace :: "nat \<Rightarrow> bool" where
  "isWhiteSpace c \<longleftrightarrow>
     c \<in> set [9, 10, 11, 12, 13, 32, 160, 5760, 8232, 8233, 8239, 8287, 12288, 65279]
     \<or> (8192 \<le> c \<and> c \<le> 8202)"

definition trim :: "jsstring \<Rightarrow> jsstring" where
  "trim s = rev (dropWhile isWhiteSpace (rev (dropWhile isWhiteSpace s)))"

text \<open>\<open>s.includes(q)\<close>: \<open>q\<close> occurs in \<open>s\<close> as a contiguous run.\<close>

fun js_includes :: "jsstring \<Rightarrow> jsstring \<Rightarrow> bool" where
  "js_includes [] q = (q = [])"
| "js_includes (c # s) q = (prefix q (c # s) \<or> js_includes s q)"

text \<open>\<open>[...new Set(xs)]\<close>: the distinct elements in order of first occurrence.\<close>

definition new_Set :: "'a list \<Rightarrow> 'a list" where
  "new_Set xs = fold (\<lambda>x seen. if x \<in> set seen then seen else seen @ [x]) xs []"

text \<open>\<open>xs.indexOf(x)\<close> for an element that may occur in \<open>xs\<close>; -1 is \<open>None\<close>.\<close>

fun indexOf :: "'a list \<Rightarrow> 'a \<Rightarrow> nat option" where
  "indexOf [] x = None"
| "indexOf (y # ys) x = (if y = x then Some 0 else map_option Suc (indexOf ys x))"

text \<open>\<open>xs.join(sep)\<close>.\<close>

fun join :: "jsstring \<Rightarrow> jsstring list \<Rightarrow> jsstring" where
  "join sep [] = []"
| "join sep [x] = x"
| "join sep (x # y # ys) = x @ sep @ join sep (y # ys)"

text \<open>The decimal rendering of a non-negative integer in a template literal.\<close>

fun show_nat :: "nat \<Rightarrow> jsstring" where
  "show_nat n = (if n < 10 then [48 + n] else show_nat (n div 10) @ [48 + n mod 10])"

declare show_nat.simps [simp del]

subsection \<open>Ordinary objects\<close>

text \<open>
  An object literal \<open>{}\<close> used as a dictionary is the list of its own properties in
  creation order. Assigning to an existing key keeps its position, assigning to a new key
  appends (\<open>AList.update\<close>). A property read that finds no own property continues on
  \<open>Object.prototype\<close>, whose property names are listed here; each of them holds a
  function or an object, never a string or an array.
\<close>

type_synonym 'v object = "(jsstring \<times> 'v) list"

definition object_prototype_keys :: "jsstring list" where
  "object_prototype_keys = map js
     [''constructor'', ''__defineGetter__'', ''__defineSetter__'', ''hasOwnProperty'',
      ''__lookupGetter__'', ''__lookupSetter__'', ''isPrototypeOf'',
      ''propertyIsEnumerable'', ''toString'', ''valueOf'', ''__proto__'',
      ''toLocaleString'']"

text \<open>
  Own keys are enumerated with the array indices first (canonical decimal numerals below
  \<open>2^32 - 1\<close>, ascending), then the other strings in creation order.
\<close>

definition isDigit :: "nat \<Rightarrow> bool" where
  "isDigit c \<longleftrightarrow> 48 \<le> c \<and> c \<le> 57"

definition digits_value :: "jsstring \<Rightarrow> nat" where
  "digits_value k = foldl (\<lambda>acc c. 10 * acc + (c - 48)) 0 k"

definition isArrayIndex :: "jsstring \<Rightarrow> bool" where
  "isArrayIndex k \<longleftrightarrow>
     k \<noteq> [] \<and> list_all isDigit k \<and> (k = [48] \<or> hd k \<noteq> 48) \<and> digits_value k < 4294967295"

definition Object_entries :: "'v object \<Rightarrow> (jsstring \<times> 'v) list" where
  "Object_entries obj =
     sort_key (\<lambda>kv. digits_value (fst kv)) (filter (\<lambda>kv. isArrayIndex (fst kv)) obj)
     @ filter (\<lambda>kv. \<not> isArrayIndex (fst kv)) obj"

definition Object_keys :: "'v object \<Rightarrow> jsstring list" where
  "Object_keys obj = map fst (Object_entries obj)"

definition Object_values :: "'v object \<Rightarrow> 'v list" where
  "Object_values obj = map snd (Object_entries obj)"

subsection \<open>Errors and rows\<close>

text \<open>
  \<open>TypeError\<close>: calling something that is not a function. \<open>RangeError\<close>: the call
  stack is exhausted by a recursion that never ends.
\<close>

datatype error = TypeError | RangeError

text \<open>The first failing element decides, as the first throw of a loop does.\<close>

fun sequence_results :: "(error + 'a) list \<Rightarrow> error + 'a list" where
  "sequence_results [] = Inr []"
| "sequence_results (x # xs) =
     (case x of
        Inl e \<Rightarrow> Inl e
      | Inr v \<Rightarrow> (case sequence_results xs of Inl e \<Rightarrow> Inl e | Inr vs \<Rightarrow> Inr (v # vs)))"

text \<open>
  A parsed CSV record: its own properties, each a string. \<open>row[col]?.trim()\<close> is
  \<open>undefined\<close> (\<open>None\<close>) for a column the row does not have, unless the read
  reaches a property of \<open>Object.prototype\<close>, which has no \<open>trim\<close> to call.
\<close>

type_synonym row = "jsstring \<rightharpoonup> jsstring"

definition row_trim :: "row \<Rightarrow> jsstring \<Rightarrow> error + jsstring option" where
  "row_trim row col =
     (case row col of
        Some v \<Rightarrow> Inr (Some (trim v))
      | None \<Rightarrow> if col \<in> set object_prototype_keys then Inl TypeError else Inr None)"

text \<open>\<open>.filter(Boolean)\<close> on trimmed cells drops \<open>undefined\<close> and the empty string.\<close>

fun filter_Boolean :: "jsstring option list \<Rightarrow> jsstring list" where
  "filter_Boolean [] = []"
| "filter_Boolean (None # vs) = filter_Boolean vs"
| "filter_Boolean (Some s # vs) = (if s = [] then filter_Boolean vs else s # filter_Boolean vs)"

section \<open>The hierarchy builder (App.jsx)\<close>

datatype node =
    Leaf (name: jsstring) (mids: "jsstring list") (count: nat)
  | Group (name: jsstring) (children: "node list") (count: nat)

text \<open>\<open>row[levels[0]]?.trim() || em_dash\<close>\<close>

definition firstLevelValue :: "jsstring \<Rightarrow> row \<Rightarrow> error + jsstring" where
  "firstLevelValue level row =
     (case row_trim row level of
        Inl e \<Rightarrow> Inl e
      | Inr None \<Rightarrow> Inr em_dash
      | Inr (Some v) \<Rightarrow> Inr (if v = [] then em_dash else v))"

text \<open>
  The \<open>rows.forEach\<close> loop filling \<open>groups\<close>. For a key naming a property of
  \<open>Object.prototype\<close> the test \<open>!groups[key]\<close> is false although no array was
  stored, and the \<open>push\<close> that follows is not a function.
\<close>

fun group_rows :: "jsstring \<Rightarrow> row list \<Rightarrow> row list object \<Rightarrow> error + row list object" where
  "group_rows level [] groups = Inr groups"
| "group_rows level (row # rows) groups =
     (case firstLevelValue level row of
        Inl e \<Rightarrow> Inl e
      | Inr key \<Rightarrow>
          (case map_of groups key of
             Some groupRows \<Rightarrow> group_rows level rows (AList.update key (groupRows @ [row]) groups)
           | None \<Rightarrow>
               if key \<in> set object_prototype_keys then Inl TypeError
               else group_rows level rows (AList.update key [row] groups)))"

text \<open>The leaf built for one group when \<open>levels.length === 1\<close>.\<close>

definition leafNode :: "jsstring option \<Rightarrow> jsstring \<Rightarrow> row list \<Rightarrow> error + node" where
  "leafNode midColumn groupName groupRows =
     (case midColumn of
        None \<Rightarrow> Inr (Leaf groupName [groupName] 1)
      | Some mc \<Rightarrow>
          if mc = [] then Inr (Leaf groupName [groupName] 1)
          else (case sequence_results (map (\<lambda>row. row_trim row mc) groupRows) of
                  Inl e \<Rightarrow> Inl e
                | Inr cells \<Rightarrow>
                    let mids = new_Set (filter_Boolean cells)
                    in Inr (Leaf groupName mids (length mids))))"

text \<open>
  \<open>nodes.sort((a, b) => a.name.localeCompare(b.name))\<close>. The collation is the host's
  and is a parameter \<open>localeCompare\<close>; the sort is stable, so it is the insertion of
  each node, from the last to the first, before the first node that does not precede it.
\<close>

fun insert_node :: "(jsstring \<Rightarrow> jsstring \<Rightarrow> int) \<Rightarrow> node \<Rightarrow> node list \<Rightarrow> node list" where
  "insert_node localeCompare a [] = [a]"
| "insert_node localeCompare a (b # bs) =
     (if localeCompare (name a) (name b) \<le> 0 then a # b # bs
      else b # insert_node localeCompare a bs)"

definition sort_nodes :: "(jsstring \<Rightarrow> jsstring \<Rightarrow> int) \<Rightarrow> node list \<Rightarrow> node list" where
  "sort_nodes localeCompare nodes = foldr (insert_node localeCompare) nodes []"

text \<open>\<open>nodes.reduce((sum, child) => sum + (child.count || 0), 0)\<close>\<close>

definition totalCount :: "node list \<Rightarrow> nat" where
  "totalCount nodes = foldl (\<lambda>sum child. sum + count child) 0 nodes"

text \<open>
  \<open>buildHierarchy(rows, levels, midColumn)\<close>. With no level left and rows to group the
  source recurses on the same levels for ever, which ends in a \<open>RangeError\<close>, unless
  the grouping (by the column named \<open>undefined\<close>) has failed before.
\<close>

fun buildHierarchy ::
  "(jsstring \<Rightarrow> jsstring \<Rightarrow> int) \<Rightarrow> row list \<Rightarrow> jsstring list \<Rightarrow> jsstring option
     \<Rightarrow> error + node list" where
  "buildHierarchy localeCompare rows [] midColumn =
     (if rows = [] then Inr []
      else (case group_rows (js ''undefined'') rows [] of
              Inl e \<Rightarrow> Inl e
            | Inr groups \<Rightarrow> Inl RangeError))"
| "buildHierarchy localeCompare rows [level] midColumn =
     (if rows = [] then Inr []
      else (case group_rows level rows [] of
              Inl e \<Rightarrow> Inl e
            | Inr groups \<Rightarrow>
                (case sequence_results
                        (map (\<lambda>(groupName, groupRows). leafNode midColumn groupName groupRows)
                           (Object_entries groups)) of
                   Inl e \<Rightarrow> Inl e
                 | Inr nodes \<Rightarrow> Inr (sort_nodes localeCompare nodes))))"
| "buildHierarchy localeCompare rows (level # level' # levels) midColumn =
     (if rows = [] then Inr []
      else (case group_rows level rows [] of
              Inl e \<Rightarrow> Inl e
            | Inr groups \<Rightarrow>
                (case sequence_results
                        (map (\<lambda>(groupName, groupRows).
                                case buildHierarchy localeCompare groupRows (level' # levels)
                                       midColumn of
                                  Inl e \<Rightarrow> Inl e
                                | Inr childNodes \<Rightarrow>
                                    Inr (Group groupName childNodes (totalCount childNodes)))
                           (Object_entries groups)) of
                   Inl e \<Rightarrow> Inl e
                 | Inr nodes \<Rightarrow> Inr (sort_nodes localeCompare nodes))))"

text \<open>
  \<open>memoizedHierarchyData\<close>: \<open>null\<close> (\<open>None\<close>) without rows or levels, otherwise the
  built nodes under the virtual root.
\<close>

definition memoizedHierarchyData ::
  "(jsstring \<Rightarrow> jsstring \<Rightarrow> int) \<Rightarrow> row list \<Rightarrow> jsstring list \<Rightarrow> jsstring option
     \<Rightarrow> error + node option" where
  "memoizedHierarchyData localeCompare parsedData levels midColumn =
     (if parsedData = [] \<or> levels = [] then Inr None
      else (case buildHierarchy localeCompare parsedData levels midColumn of
              Inl e \<Rightarrow> Inl e
            | Inr hierarchyNodes \<Rightarrow>
                Inr (Some (Group (js ''All Accounts'') hierarchyNodes
                             (totalCount hierarchyNodes)))))"

section \<open>The validator (App.jsx)\<close>

record columnMappings =
  levels :: "jsstring list"
  midColumn :: "jsstring option"
  levelAliases :: "jsstring object"

record validation =
  errors :: "jsstring list"
  warnings :: "jsstring list"

text \<open>
  \<open>[...levels.filter(Boolean), midColumn].filter(Boolean)\<close> has a repeated element.
\<close>

definition hasDuplicateSelections :: "columnMappings \<Rightarrow> bool" where
  "hasDuplicateSelections m =
     (let allSelections =
            filter (\<lambda>s. s \<noteq> [])
              (filter (\<lambda>s. s \<noteq> []) (levels m)
               @ (case midColumn m of None \<Rightarrow> [] | Some c \<Rightarrow> [c]))
      in length allSelections \<noteq> length (new_Set allSelections))"

definition getDuplicateAliases :: "columnMappings \<Rightarrow> jsstring list" where
  "getDuplicateAliases m =
     (let aliasValues = filter (\<lambda>s. s \<noteq> []) (Object_values (levelAliases m));
          duplicates =
            map fst
              (filter (\<lambda>(alias, index). indexOf aliasValues alias \<noteq> Some index)
                 (zip aliasValues [0..<length aliasValues]))
      in new_Set duplicates)"

text \<open>\<open>parsedData.filter(row => !row[col]?.trim()).length\<close>\<close>

definition emptyCount :: "row list \<Rightarrow> jsstring \<Rightarrow> error + nat" where
  "emptyCount parsedData col =
     (case sequence_results (map (\<lambda>row. row_trim row col) parsedData) of
        Inl e \<Rightarrow> Inl e
      | Inr cells \<Rightarrow> Inr (length (filter (\<lambda>cell. cell = None \<or> cell = Some []) cells)))"

text \<open>
  \<open>emptyValueCounts[col] = n\<close> on an object literal: the inherited setter of
  \<open>__proto__\<close> ignores a number, so that key never becomes an own property.
\<close>

definition assign_count :: "jsstring \<Rightarrow> nat \<Rightarrow> nat object \<Rightarrow> nat object" where
  "assign_count col n obj = (if col = js ''__proto__'' then obj else AList.update col n obj)"

fun count_levels :: "row list \<Rightarrow> jsstring list \<Rightarrow> nat object \<Rightarrow> error + nat object" where
  "count_levels parsedData [] emptyValueCounts = Inr emptyValueCounts"
| "count_levels parsedData (level # ls) emptyValueCounts =
     (case emptyCount parsedData level of
        Inl e \<Rightarrow> Inl e
      | Inr n \<Rightarrow>
          count_levels parsedData ls
            (if n > 0 then assign_count level n emptyValueCounts else emptyValueCounts))"

definition missingWarning :: "jsstring \<times> nat \<Rightarrow> jsstring" where
  "missingWarning cn =
     show_nat (snd cn) @ js '' rows missing '' @ fst cn @ js ''; grouped under ''
       @ [39] @ em_dash @ [39] @ js ''.''"

definition validateMapping :: "row list \<Rightarrow> columnMappings \<Rightarrow> error + validation" where
  "validateMapping parsedData m =
     (let errors1 = (if levels m = [] then [js ''Select at least one level.''] else []);
          errors2 = errors1 @ (if hasDuplicateSelections m
                                then [js ''Duplicate headers across levels or with MID.'']
                                else []);
          duplicateAliases = getDuplicateAliases m;
          warnings1 =
            (if duplicateAliases \<noteq> []
             then [js ''Duplicate alias names may cause confusion in preview: ''
                     @ join (js '', '') duplicateAliases @ js ''.'']
             else [])
      in if parsedData \<noteq> [] \<and> levels m \<noteq> [] then
           (case count_levels parsedData (levels m) [] of
              Inl e \<Rightarrow> Inl e
            | Inr counts \<Rightarrow>
                (case (case midColumn m of
                         None \<Rightarrow> Inr counts
                       | Some mc \<Rightarrow>
                           if mc = [] then Inr counts
                           else (case emptyCount parsedData mc of
                                   Inl e \<Rightarrow> Inl e
                                 | Inr n \<Rightarrow>
                                     Inr (if n > 0 then assign_count mc n counts else counts))) of
                   Inl e \<Rightarrow> Inl e
                 | Inr emptyValueCounts \<Rightarrow>
                     Inr \<lparr>errors = errors2,
                          warnings = warnings1
                            @ map missingWarning (Object_entries emptyValueCounts)\<rparr>))
         else Inr \<lparr>errors = errors2, warnings = warnings1\<rparr>)"

section \<open>Search and filter (HierarchyTree.jsx)\<close>

text \<open>
  \<open>String.prototype.toLowerCase\<close> depends on the Unicode case tables; it is the
  parameter \<open>toLowerCase\<close> of the two functions below. The query is lower-cased as
  typed: only the emptiness test trims it.
\<close>

fun nodeMatchesSearch :: "(jsstring \<Rightarrow> jsstring) \<Rightarrow> node \<Rightarrow> jsstring \<Rightarrow> bool" where
  "nodeMatchesSearch toLowerCase (Leaf nm ms c) query =
     (if trim query = [] then True
      else if js_includes (toLowerCase nm) (toLowerCase query) then True
      else list_ex (\<lambda>mid. js_includes (toLowerCase mid) (toLowerCase query)) ms)"
| "nodeMatchesSearch toLowerCase (Group nm ch c) query =
     (if trim query = [] then True
      else if js_includes (toLowerCase nm) (toLowerCase query) then True
      else list_ex (\<lambda>child. nodeMatchesSearch toLowerCase child query) ch)"

fun filterHierarchy :: "(jsstring \<Rightarrow> jsstring) \<Rightarrow> node list \<Rightarrow> jsstring \<Rightarrow> node list" where
  "filterHierarchy toLowerCase nodes query =
     (if trim query = [] then nodes
      else map (\<lambda>node. case node of
                   Group nm ch c \<Rightarrow> Group nm (filterHierarchy toLowerCase ch query) c
                 | Leaf nm ms c \<Rightarrow> node)
             (filter (\<lambda>node.
                 if nodeMatchesSearch toLowerCase node query then True
                 else (case node of
                         Group nm ch c \<Rightarrow> filterHierarchy toLowerCase ch query \<noteq> []
                       | Leaf nm ms c \<Rightarrow> False))
               nodes))"

declare filterHierarchy.simps [simp del]

text \<open>
  \<open>filteredHierarchy\<close>: the filtered children of the root, or the empty list when
  there is no tree.
\<close>

definition filteredHierarchy ::
  "(jsstring \<Rightarrow> jsstring) \<Rightarrow> node option \<Rightarrow> jsstring \<Rightarrow> node list" where
  "filteredHierarchy toLowerCase hierarchyData searchQuery =
     (case hierarchyData of
        Some (Group nm ch c) \<Rightarrow> filterHierarchy toLowerCase ch searchQuery
      | _ \<Rightarrow> [])"

section \<open>The expansion controller (HierarchyTree.jsx, App.jsx)\<close>

text \<open>
  \<open>expandedNodes\<close> is an object from node keys to booleans, owned by \<open>App\<close>. Node
  keys are \<open>root-i\<close>, \<open>root-i-j\<close>, ...; none of them names a property of
  \<open>Object.prototype\<close>, so a read is a read of an own property.
\<close>

definition isExpanded :: "bool object \<Rightarrow> jsstring \<Rightarrow> bool" where
  "isExpanded expandedNodes nodeKey \<longleftrightarrow> map_of expandedNodes nodeKey = Some True"

text \<open>\<open>setExpandedNodes(prev => ({...prev, [nodeKey]: !prev[nodeKey]}))\<close>\<close>

definition memoizedToggleExpanded :: "jsstring \<Rightarrow> bool object \<Rightarrow> bool object" where
  "memoizedToggleExpanded nodeKey prev = AList.update nodeKey (\<not> isExpanded prev nodeKey) prev"

definition nodeKeyOf :: "jsstring \<Rightarrow> nat \<Rightarrow> jsstring" where
  "nodeKeyOf path index =
     (if path \<noteq> [] then path @ js ''-'' @ show_nat index else js ''root-'' @ show_nat index)"

text \<open>
  \<open>expandMatchingNodes(nodes, path)\<close>, with the index of the \<open>forEach\<close> and the
  object \<open>newExpandedNodes\<close> it fills as arguments.
\<close>

fun expandMatchingNodes ::
  "(jsstring \<Rightarrow> jsstring) \<Rightarrow> jsstring \<Rightarrow> node list \<Rightarrow> jsstring \<Rightarrow> nat \<Rightarrow> bool object
     \<Rightarrow> bool object" where
  "expandMatchingNodes toLowerCase searchQuery [] path index newExpandedNodes = newExpandedNodes"
| "expandMatchingNodes toLowerCase searchQuery (Leaf nm ms c # nodes) path index newExpandedNodes =
     expandMatchingNodes toLowerCase searchQuery nodes path (Suc index) newExpandedNodes"
| "expandMatchingNodes toLowerCase searchQuery (Group nm ch c # nodes) path index newExpandedNodes =
     (let nodeKey = nodeKeyOf path index
      in expandMatchingNodes toLowerCase searchQuery nodes path (Suc index)
           (if ch \<noteq> [] then
              expandMatchingNodes toLowerCase searchQuery ch nodeKey 0
                (if nodeMatchesSearch toLowerCase (Group nm ch c) searchQuery
                 then AList.update nodeKey True newExpandedNodes
                 else newExpandedNodes)
            else newExpandedNodes))"

text \<open>
  The comparison guarding both reconciliations: the sorted key lists differ in length or
  at some position, or some current key has a different value in the other object.
\<close>

definition isDifferent :: "bool object \<Rightarrow> bool object \<Rightarrow> bool" where
  "isDifferent expandedNodes other =
     (let currentKeys = sort (Object_keys expandedNodes);
          otherKeys = sort (Object_keys other)
      in length currentKeys \<noteq> length otherKeys
         \<or> list_ex (\<lambda>index. currentKeys ! index \<noteq> otherKeys ! index) [0..<length currentKeys]
         \<or> list_ex (\<lambda>key. map_of expandedNodes key \<noteq> map_of other key) currentKeys)"

text \<open>
  The two \<open>forEach\<close> loops of a reconciliation, as the list of \<open>onToggleExpanded\<close>
  calls they make. Both read the \<open>expandedNodes\<close> of the render that scheduled the
  effect.
\<close>

definition reconcile :: "bool object \<Rightarrow> bool object \<Rightarrow> jsstring list" where
  "reconcile expandedNodes target =
     filter (\<lambda>nodeKey. \<not> isExpanded expandedNodes nodeKey) (Object_keys target)
     @ filter (\<lambda>nodeKey. \<not> isExpanded target nodeKey) (Object_keys expandedNodes)"

record ui_state =
  expandedNodes :: "bool object"
  searchQuery :: jsstring
  originalExpandedState :: "bool object"

text \<open>
  One run of the effect: the \<open>onToggleExpanded\<close> calls it makes, in order, and the
  next \<open>originalExpandedState\<close>. \<open>hasToggle\<close> says whether the
  \<open>onToggleExpanded\<close> prop was passed.
\<close>

definition searchEffect ::
  "(jsstring \<Rightarrow> jsstring) \<Rightarrow> node option \<Rightarrow> bool \<Rightarrow> ui_state \<Rightarrow> jsstring list \<times> bool object" where
  "searchEffect toLowerCase hierarchyData hasToggle s =
     (if trim (searchQuery s) \<noteq> [] then
        (let saved = (if Object_keys (originalExpandedState s) = [] then expandedNodes s
                      else originalExpandedState s);
             newExpandedNodes =
               expandMatchingNodes toLowerCase (searchQuery s)
                 (filteredHierarchy toLowerCase hierarchyData (searchQuery s)) [] 0 []
         in (if isDifferent (expandedNodes s) newExpandedNodes \<and> hasToggle
             then reconcile (expandedNodes s) newExpandedNodes else [],
             saved))
      else
        (if Object_keys (originalExpandedState s) \<noteq> [] \<and> hasToggle
            \<and> isDifferent (expandedNodes s) (originalExpandedState s)
         then reconcile (expandedNodes s) (originalExpandedState s) else [],
         []))"

text \<open>
  \<open>handleToggle\<close> of the \<open>TreeNode\<close> with key \<open>nodeKey\<close>: it calls
  \<open>onToggleExpanded\<close> only for a node with children. The top-level nodes of the
  filtered tree are rendered with the keys \<open>root-i\<close>; the children of a node with
  children are rendered, with the keys \<open>nodeKey-j\<close>, while that node is expanded.
  \<open>togglesOnClick\<close> says whether a rendered node with children has the key.
\<close>

fun togglesOnClick :: "bool object \<Rightarrow> node list \<Rightarrow> jsstring \<Rightarrow> nat \<Rightarrow> jsstring \<Rightarrow> bool" where
  "togglesOnClick expanded [] path index nodeKey = False"
| "togglesOnClick expanded (Leaf nm ms c # nodes) path index nodeKey =
     togglesOnClick expanded nodes path (Suc index) nodeKey"
| "togglesOnClick expanded (Group nm ch c # nodes) path index nodeKey =
     ((ch \<noteq> []
       \<and> (nodeKeyOf path index = nodeKey
          \<or> (isExpanded expanded (nodeKeyOf path index)
              \<and> togglesOnClick expanded ch (nodeKeyOf path index) 0 nodeKey)))
      \<or> togglesOnClick expanded nodes path (Suc index) nodeKey)"

text \<open>
  What the user does: click the header of the node rendered with a key (\<open>Click\<close>) or
  change the text of the search box (\<open>Type\<close>). The effect runs after a render in which
  \<open>searchQuery\<close> changed; \<open>App\<close> then applies the toggles in the order they were
  called.
\<close>

datatype event = Click jsstring | Type jsstring

definition step ::
  "(jsstring \<Rightarrow> jsstring) \<Rightarrow> node option \<Rightarrow> ui_state \<Rightarrow> event \<Rightarrow> ui_state" where
  "step toLowerCase hierarchyData s ev =
     (case ev of
        Click nodeKey \<Rightarrow>
          if togglesOnClick (expandedNodes s)
               (filteredHierarchy toLowerCase hierarchyData (searchQuery s)) [] 0 nodeKey
          then s\<lparr>expandedNodes := memoizedToggleExpanded nodeKey (expandedNodes s)\<rparr>
          else s
      | Type q \<Rightarrow>
          if q = searchQuery s then s
          else (let s' = s\<lparr>searchQuery := q\<rparr>;
                    (toggles, saved) = searchEffect toLowerCase hierarchyData True s'
                in s'\<lparr>expandedNodes := fold memoizedToggleExpanded toggles (expandedNodes s'),
                       originalExpandedState := saved\<rparr>))"

definition run ::
  "(jsstring \<Rightarrow> jsstring) \<Rightarrow> node option \<Rightarrow> ui_state \<Rightarrow> event list \<Rightarrow> ui_state" where
  "run toLowerCase hierarchyData s evs = foldl (step toLowerCase hierarchyData) s evs"

definition initial_state :: ui_state where
  "initial_state = \<lparr>expandedNodes = [], searchQuery = [], originalExpandedState = []\<rparr>"

section \<open>Notions of the specification\<close>

text \<open>
  The matching predicate in the specification's words: a node matches a non-blank query
  when the query occurs, case-insensitively, in its own name or (for a leaf) in one of its
  identifiers, or when some descendant does. \<open>own_hit\<close> is the test on one node,
  \<open>descendants\<close> lists the proper descendants of a node, \<open>forest_nodes\<close> every
  node of a list of trees.
\<close>

definition own_hit :: "(jsstring \<Rightarrow> jsstring) \<Rightarrow> jsstring \<Rightarrow> node \<Rightarrow> bool" where
  "own_hit toLowerCase query node \<longleftrightarrow>
     js_includes (toLowerCase (name node)) (toLowerCase query)
     \<or> (case node of
          Leaf nm ms c \<Rightarrow> list_ex (\<lambda>mid. js_includes (toLowerCase mid) (toLowerCase query)) ms
        | Group nm ch c \<Rightarrow> False)"

fun descendants :: "node \<Rightarrow> node list" where
  "descendants (Leaf nm ms c) = []"
| "descendants (Group nm ch c) = concat (map (\<lambda>child. child # descendants child) ch)"

definition spec_matches :: "(jsstring \<Rightarrow> jsstring) \<Rightarrow> node \<Rightarrow> jsstring \<Rightarrow> bool" where
  "spec_matches toLowerCase node query \<longleftrightarrow>
     trim query = [] \<or> own_hit toLowerCase query node
     \<or> list_ex (own_hit toLowerCase query) (descendants node)"

definition forest_nodes :: "node list \<Rightarrow> node list" where
  "forest_nodes nodes = concat (map (\<lambda>node. node # descendants node) nodes)"

text \<open>
  Sibling order: a list of nodes is sorted when no node is followed (anywhere later in the
  list) by one that the collation puts strictly before it, and the children of every group
  are sorted in the same sense. A comparator is consistent when it is total and transitive,
  as a collation is.
\<close>

fun sorted_forest :: "(jsstring \<Rightarrow> jsstring \<Rightarrow> int) \<Rightarrow> node list \<Rightarrow> bool" where
  "sorted_forest localeCompare nodes \<longleftrightarrow>
     sorted_wrt (\<lambda>a b. localeCompare (name a) (name b) \<le> 0) nodes
     \<and> list_all (\<lambda>node. case node of
                      Group nm ch c \<Rightarrow> sorted_forest localeCompare ch
                    | Leaf nm ms c \<Rightarrow> True) nodes"

declare sorted_forest.simps [simp del]

definition consistent_comparator :: "(jsstring \<Rightarrow> jsstring \<Rightarrow> int) \<Rightarrow> bool" where
  "consistent_comparator cmp \<longleftrightarrow>
     (\<forall>a b. cmp a b \<le> 0 \<or> cmp b a \<le> 0)
     \<and> (\<forall>a b c. cmp a b \<le> 0 \<longrightarrow> cmp b c \<le> 0 \<longrightarrow> cmp a c \<le> 0)"

text \<open>
  Counts: \<open>leaf_ids\<close> concatenates the identifier lists of the leaves of a subtree,
  in order. A node is well counted when every leaf below it holds distinct identifiers and
  counts them, and every group counts the identifiers of the leaves below it, one for each
  leaf they occur in.
\<close>

fun leaf_ids :: "node \<Rightarrow> jsstring list" where
  "leaf_ids (Leaf nm ms c) = ms"
| "leaf_ids (Group nm ch c) = concat (map leaf_ids ch)"

fun well_counted :: "node \<Rightarrow> bool" where
  "well_counted (Leaf nm ms c) \<longleftrightarrow> distinct ms \<and> c = length ms"
| "well_counted (Group nm ch c) \<longleftrightarrow>
     c = length (concat (map leaf_ids ch)) \<and> list_all well_counted ch"

text \<open>
  Last-level groups: \<open>group_of level rows g\<close> are the rows whose trimmed value at
  \<open>level\<close> (or the em dash for a blank one) is \<open>g\<close>; \<open>id_values\<close> are the
  trimmed non-empty values of the identifier column over some rows, in row order;
  \<open>first_seen\<close> keeps each value where it occurs first and drops its later
  occurrences; \<open>spec_identifiers\<close> is the identifier list the specification gives a
  leaf.
\<close>

fun first_seen :: "'a list \<Rightarrow> 'a list" where
  "first_seen [] = []"
| "first_seen (x # xs) = x # removeAll x (first_seen xs)"

definition group_of :: "jsstring \<Rightarrow> row list \<Rightarrow> jsstring \<Rightarrow> row list" where
  "group_of level rows g = filter (\<lambda>row. firstLevelValue level row = Inr g) rows"

definition id_values :: "jsstring \<Rightarrow> row list \<Rightarrow> jsstring list" where
  "id_values idColumn rs =
     concat (map (\<lambda>row. case row idColumn of
                           None \<Rightarrow> []
                         | Some v \<Rightarrow> if trim v = [] then [] else [trim v]) rs)"

definition spec_identifiers :: "jsstring option \<Rightarrow> jsstring \<Rightarrow> row list \<Rightarrow> jsstring list" where
  "spec_identifiers idColumn g rs =
     (case idColumn of
        None \<Rightarrow> [g]
      | Some c \<Rightarrow> if c = [] then [g] else first_seen (id_values c rs))"

text \<open>
  Inputs on which no property read reaches \<open>Object.prototype\<close>: every level value
  is an own string of its row whose trimmed form is not a prototype property name (or the
  level column itself is no such name where the row lacks it), and likewise for the
  identifier column.
\<close>

definition no_prototype_clash :: "row list \<Rightarrow> jsstring list \<Rightarrow> jsstring option \<Rightarrow> bool" where
  "no_prototype_clash rows lv mc \<longleftrightarrow>
     (\<forall>r\<in>set rows. \<forall>c\<in>set lv.
        (case r c of
           None \<Rightarrow> c \<notin> set object_prototype_keys
         | Some v \<Rightarrow> trim v \<notin> set object_prototype_keys))
     \<and> (\<forall>r\<in>set rows.
          case mc of
            None \<Rightarrow> True
          | Some c \<Rightarrow> c = [] \<or> r c \<noteq> None \<or> c \<notin> set object_prototype_keys)"

text \<open>
  The validator's inputs in the specification's words: the columns selected as levels or
  as the identifier column, and the non-empty display aliases.
\<close>

definition selections :: "columnMappings \<Rightarrow> jsstring list" where
  "selections m =
     filter (\<lambda>s. s \<noteq> []) (levels m)
     @ (case midColumn m of None \<Rightarrow> [] | Some c \<Rightarrow> if c = [] then [] else [c])"

definition aliases :: "columnMappings \<Rightarrow> jsstring list" where
  "aliases m = filter (\<lambda>s. s \<noteq> []) (Object_values (levelAliases m))"

text \<open>
  The identifiers of the table in the specification's words: the trimmed, non-empty values
  of the identifier column over all rows when an identifier column is set; the last level's
  group names when none is. \<open>table_pairs\<close> lists, row by row, each identifier with
  the level values of its row (the path of the leaf it belongs to); \<open>pairs_below\<close>
  is the set of these pairs for the rows under a group, whose last level is given apart.
\<close>

definition last_level_names :: "row list \<Rightarrow> jsstring \<Rightarrow> jsstring list" where
  "last_level_names rows lastLevel =
     concat (map (\<lambda>row. case firstLevelValue lastLevel row of
                            Inr g \<Rightarrow> [g]
                          | Inl e \<Rightarrow> []) rows)"

definition table_identifiers :: "row list \<Rightarrow> jsstring \<Rightarrow> jsstring option \<Rightarrow> jsstring list" where
  "table_identifiers rows lastLevel idColumn =
     (case idColumn of
        None \<Rightarrow> last_level_names rows lastLevel
      | Some c \<Rightarrow> if c = [] then last_level_names rows lastLevel else id_values c rows)"

definition table_pairs ::
  "row list \<Rightarrow> jsstring list \<Rightarrow> jsstring option \<Rightarrow> ((error + jsstring) list \<times> jsstring) list" where
  "table_pairs rows lv idColumn =
     concat (map (\<lambda>row. map (\<lambda>v. (map (\<lambda>l. firstLevelValue l row) lv, v))
                           (table_identifiers [row] (last lv) idColumn)) rows)"

definition pairs_below ::
  "row list \<Rightarrow> jsstring list \<Rightarrow> jsstring \<Rightarrow> jsstring option
     \<Rightarrow> ((error + jsstring) list \<times> jsstring) set" where
  "pairs_below rows lv ll mc =
     (\<Union>r\<in>set rows. (\<lambda>v. (map (\<lambda>l. firstLevelValue l r) lv, v))
                        ` set (table_identifiers [r] ll mc))"


section \<open>Worked inputs\<close>

text \<open>
  A sample collation (code unit order) and a sample case mapping (ASCII letters only) to
  run the functions on; the rows of the specification's scenario A and the tree it
  describes; two rows that share an identifier; rows with two tiers under one region; rows
  whose identifier cells are blank; a mapping with a repeated level and a repeated alias.
\<close>

definition code_unit_compare :: "jsstring \<Rightarrow> jsstring \<Rightarrow> int" where
  "code_unit_compare a b = (if a = b then 0 else if a < b then - 1 else 1)"

definition ascii_toLowerCase :: "jsstring \<Rightarrow> jsstring" where
  "ascii_toLowerCase s = map (\<lambda>c. if 65 \<le> c \<and> c \<le> 90 then c + 32 else c) s"

definition rowsA :: "row list" where
  "rowsA =
     [[js ''Region'' \<mapsto> js ''East'', js ''Tier'' \<mapsto> js ''Gold'', js ''MID'' \<mapsto> js ''m1''],
      [js ''Region'' \<mapsto> js ''East'', js ''Tier'' \<mapsto> js ''Gold'', js ''MID'' \<mapsto> js ''m2''],
      [js ''Region'' \<mapsto> js ''West'', js ''Tier'' \<mapsto> js '''', js ''MID'' \<mapsto> js ''m3'']]"

definition treeA :: node where
  "treeA = Group (js ''All Accounts'')
     [Group (js ''East'') [Leaf (js ''Gold'') [js ''m1'', js ''m2''] 2] 2,
      Group (js ''West'') [Leaf em_dash [js ''m3''] 1] 1] 3"

definition rows_shared :: "row list" where
  "rows_shared =
     [[js ''Region'' \<mapsto> js ''East'', js ''MID'' \<mapsto> js ''m1''],
      [js ''Region'' \<mapsto> js ''West'', js ''MID'' \<mapsto> js ''m1'']]"

definition tree_shared :: node where
  "tree_shared = Group (js ''All Accounts'')
     [Leaf (js ''East'') [js ''m1''] 1, Leaf (js ''West'') [js ''m1''] 1] 2"

definition rows_tiers :: "row list" where
  "rows_tiers =
     [[js ''Region'' \<mapsto> js ''East'', js ''Tier'' \<mapsto> js ''Gold'', js ''MID'' \<mapsto> js ''m1''],
      [js ''Region'' \<mapsto> js ''East'', js ''Tier'' \<mapsto> js ''Silver'', js ''MID'' \<mapsto> js ''m2'']]"

definition nodes_tiers :: "node list" where
  "nodes_tiers =
     [Group (js ''East'') [Leaf (js ''Gold'') [js ''m1''] 1, Leaf (js ''Silver'') [js ''m2''] 1] 2]"


definition validation_example :: columnMappings where
  "validation_example =
     \<lparr>levels = [js ''Region'', js ''Region''], midColumn = None,
      levelAliases = [(js ''Region'', js ''X''), (js ''Tier'', js ''X'')]\<rparr>"

section \<open>Lemmas\<close>

subsection \<open>Evaluation\<close>

lemmas string_eval = js_def em_dash_def trim_def isWhiteSpace_def

lemmas object_eval = Object_entries_def Object_keys_def Object_values_def isArrayIndex_def
  isDigit_def digits_value_def object_prototype_keys_def

lemmas builder_eval = memoizedHierarchyData_def firstLevelValue_def row_trim_def leafNode_def
  new_Set_def sort_nodes_def totalCount_def code_unit_compare_def

subsection \<open>Strings, sets and lists\<close>

lemma new_Set_fold:
  "distinct acc \<Longrightarrow>
     distinct (fold (\<lambda>x seen. if x \<in> set seen then seen else seen @ [x]) xs acc)
     \<and> set (fold (\<lambda>x seen. if x \<in> set seen then seen else seen @ [x]) xs acc)
         = set acc \<union> set xs"
  by (induction xs arbitrary: acc) auto

lemma distinct_new_Set: "distinct (new_Set xs)"
  using new_Set_fold[of "[]" xs] by (simp add: new_Set_def)

lemma set_new_Set: "set (new_Set xs) = set xs"
  using new_Set_fold[of "[]" xs] by (simp add: new_Set_def)

lemma length_new_Set: "length (new_Set xs) = card (set xs)"
  using distinct_card[OF distinct_new_Set, of xs] by (simp add: set_new_Set)

lemma new_Set_snoc:
  "new_Set (xs @ [x]) = (if x \<in> set xs then new_Set xs else new_Set xs @ [x])"
  using set_new_Set[of xs] by (simp add: new_Set_def)

lemma new_Set_fold_first_seen:
  "fold (\<lambda>x seen. if x \<in> set seen then seen else seen @ [x]) xs acc
     = acc @ filter (\<lambda>y. y \<notin> set acc) (first_seen xs)"
proof (induction xs arbitrary: acc)
  case Nil
  show ?case by simp
next
  case (Cons z zs)
  show ?case
  proof (cases "z \<in> set acc")
    case True
    then have "filter (\<lambda>y. y \<notin> set acc) (removeAll z (first_seen zs))
               = filter (\<lambda>y. y \<notin> set acc) (first_seen zs)"
      by (auto simp add: removeAll_filter_not_eq intro: filter_cong)
    with True Cons.IH[of acc] show ?thesis by simp
  next
    case False
    have "filter (\<lambda>y. y \<notin> set (acc @ [z])) (first_seen zs)
          = filter (\<lambda>y. y \<notin> set acc) (removeAll z (first_seen zs))"
      by (auto simp add: removeAll_filter_not_eq intro: filter_cong)
    with False Cons.IH[of "acc @ [z]"] show ?thesis by simp
  qed
qed

lemma new_Set_first_seen: "new_Set xs = first_seen xs"
  by (simp add: new_Set_def new_Set_fold_first_seen)

lemma sequence_results_Inr:
  "sequence_results xs = Inr ys \<Longrightarrow> xs = map Inr ys"
  by (induction xs arbitrary: ys) (auto split: sum.splits)

lemma sequence_results_map:
  assumes "sequence_results (map f xs) = Inr ys"
  shows "list_all2 (\<lambda>x y. f x = Inr y) xs ys"
proof -
  from assms have eq: "map f xs = map Inr ys" by (rule sequence_results_Inr)
  then have len: "length xs = length ys" by (metis length_map)
  show ?thesis
  proof (rule list_all2_all_nthI[OF len])
    fix i assume "i < length xs"
    with eq len show "f (xs ! i) = Inr (ys ! i)"
      by (metis nth_map)
  qed
qed

lemma sequence_results_returns:
  "\<forall>x\<in>set xs. \<exists>y. f x = Inr y \<Longrightarrow> \<exists>ys. sequence_results (map f xs) = Inr ys"
  by (induction xs) auto

lemma list_all2_set2: "list_all2 P xs ys \<Longrightarrow> y \<in> set ys \<Longrightarrow> \<exists>x\<in>set xs. P x y"
  by (induction rule: list_all2_induct) auto

lemma list_all2_set1: "list_all2 P xs ys \<Longrightarrow> x \<in> set xs \<Longrightarrow> \<exists>y\<in>set ys. P x y"
  by (induction rule: list_all2_induct) auto

lemma indexOf_Some_iff:
  "indexOf xs x = Some i \<longleftrightarrow> i < length xs \<and> xs ! i = x \<and> (\<forall>j<i. xs ! j \<noteq> x)"
proof (induction xs arbitrary: i)
  case Nil
  show ?case by simp
next
  case (Cons y ys)
  show ?case
  proof (cases "y = x")
    case True
    then show ?thesis by (cases i) auto
  next
    case False
    show ?thesis
    proof (cases i)
      case 0
      with False show ?thesis by auto
    next
      case (Suc i')
      with False Cons.IH[of i'] show ?thesis
        by (auto simp add: nth_Cons' less_Suc_eq_0_disj)
    qed
  qed
qed

lemma duplicates_empty_iff:
  "filter (\<lambda>(a, i). indexOf xs a \<noteq> Some i) (zip xs [0..<length xs]) = [] \<longleftrightarrow> distinct xs"
proof -
  have "filter (\<lambda>(a, i). indexOf xs a \<noteq> Some i) (zip xs [0..<length xs]) = []
        \<longleftrightarrow> (\<forall>i<length xs. indexOf xs (xs ! i) = Some i)"
  proof -
    have "(xs ! i, i) \<in> set (zip xs [0..<length xs])" if "i < length xs" for i
      using that by (auto simp add: in_set_zip intro!: exI[of _ i])
    moreover have "a = xs ! i \<and> i < length xs" if "(a, i) \<in> set (zip xs [0..<length xs])" for a i
      using that by (auto simp add: in_set_zip)
    ultimately show ?thesis
      by (fastforce simp add: filter_empty_conv)
  qed
  also have "\<dots> \<longleftrightarrow> (\<forall>i<length xs. \<forall>j<i. xs ! j \<noteq> xs ! i)"
    by (simp add: indexOf_Some_iff)
  also have "\<dots> \<longleftrightarrow> distinct xs"
    unfolding distinct_conv_nth
    by (metis nat_neq_iff order.strict_trans)
  finally show ?thesis .
qed

subsection \<open>Objects and grouping\<close>

lemma set_Object_entries: "set (Object_entries obj) = set obj"
  by (auto simp add: Object_entries_def)

lemma distinct_Object_entries:
  assumes "distinct (map fst obj)"
  shows "distinct (map fst (Object_entries obj))"
proof -
  from assms have d: "distinct obj" and inj: "inj_on fst (set obj)"
    by (simp_all add: distinct_map)
  have "distinct (Object_entries obj)"
    using d by (auto simp add: Object_entries_def)
  moreover have "inj_on fst (set (Object_entries obj))"
    using inj by (simp add: set_Object_entries)
  ultimately show ?thesis by (simp add: distinct_map)
qed

lemma em_dash_not_prototype: "em_dash \<notin> set object_prototype_keys"
  by (simp add: em_dash_def object_prototype_keys_def js_def)

lemma firstLevelValue_returns:
  assumes "case r c of None \<Rightarrow> c \<notin> set object_prototype_keys
           | Some v \<Rightarrow> trim v \<notin> set object_prototype_keys"
  shows "\<exists>k. firstLevelValue c r = Inr k \<and> k \<notin> set object_prototype_keys"
  using assms em_dash_not_prototype
  by (auto simp add: firstLevelValue_def row_trim_def split: option.splits)

lemma group_rows_map_of:
  "group_rows level rows g0 = Inr g \<Longrightarrow>
     map_of g k =
       (if group_of level rows k = [] then map_of g0 k
        else Some ((case map_of g0 k of None \<Rightarrow> [] | Some grp \<Rightarrow> grp) @ group_of level rows k))"
proof (induction rows arbitrary: g0)
  case Nil
  then show ?case by (simp add: group_of_def)
next
  case (Cons r rows)
  from Cons.prems obtain key where key: "firstLevelValue level r = Inr key"
    by (auto split: sum.splits)
  show ?case
  proof (cases "map_of g0 key")
    case None
    with Cons.prems key have "group_rows level rows (AList.update key [r] g0) = Inr g"
      by (auto split: if_splits)
    from Cons.IH[OF this] None key show ?thesis
      by (auto simp add: group_of_def update_conv')
  next
    case (Some grp)
    with Cons.prems key have "group_rows level rows (AList.update key (grp @ [r]) g0) = Inr g"
      by auto
    from Cons.IH[OF this] Some key show ?thesis
      by (auto simp add: group_of_def update_conv')
  qed
qed

lemma group_rows_distinct:
  "group_rows level rows g0 = Inr g \<Longrightarrow> distinct (map fst g0) \<Longrightarrow> distinct (map fst g)"
proof (induction rows arbitrary: g0)
  case Nil
  then show ?case by simp
next
  case (Cons r rows)
  from Cons.prems(1) obtain key where key: "firstLevelValue level r = Inr key"
    by (auto split: sum.splits)
  show ?case
  proof (cases "map_of g0 key")
    case None
    with Cons.prems key have "group_rows level rows (AList.update key [r] g0) = Inr g"
      by (auto split: if_splits)
    from Cons.IH[OF this] Cons.prems(2) show ?thesis by (simp add: distinct_update)
  next
    case (Some grp)
    with Cons.prems key have "group_rows level rows (AList.update key (grp @ [r]) g0) = Inr g"
      by auto
    from Cons.IH[OF this] Cons.prems(2) show ?thesis by (simp add: distinct_update)
  qed
qed

lemma group_rows_entries:
  assumes "group_rows level rows [] = Inr groups"
  shows "distinct (map fst groups)"
    and "(k, grp) \<in> set groups \<longleftrightarrow> grp = group_of level rows k \<and> grp \<noteq> []"
proof -
  show d: "distinct (map fst groups)"
    using group_rows_distinct[OF assms] by simp
  have "map_of groups k = (if group_of level rows k = [] then None
                           else Some (group_of level rows k))"
    using group_rows_map_of[OF assms, of k] by simp
  moreover have "(k, grp) \<in> set groups \<longleftrightarrow> map_of groups k = Some grp"
    using map_of_eq_Some_iff[OF d] by simp
  ultimately show "(k, grp) \<in> set groups \<longleftrightarrow> grp = group_of level rows k \<and> grp \<noteq> []"
    by auto
qed

lemma group_rows_returns:
  "\<forall>r\<in>set rows. \<exists>k. firstLevelValue level r = Inr k \<and> k \<notin> set object_prototype_keys
     \<Longrightarrow> \<exists>g. group_rows level rows g0 = Inr g"
proof (induction rows arbitrary: g0)
  case Nil
  show ?case by simp
next
  case (Cons r rows)
  from Cons.prems obtain k where k: "firstLevelValue level r = Inr k"
    "k \<notin> set object_prototype_keys" by auto
  from Cons.prems have rest:
    "\<forall>r\<in>set rows. \<exists>k. firstLevelValue level r = Inr k \<and> k \<notin> set object_prototype_keys"
    by simp
  show ?case
    using k Cons.IH[OF rest] by (cases "map_of g0 k") simp_all
qed

subsection \<open>Sorting\<close>

lemma set_insert_node: "set (insert_node cmp a bs) = insert a (set bs)"
  by (induction bs) auto

lemma sort_nodes_Nil: "sort_nodes cmp [] = []"
  by (simp add: sort_nodes_def)

lemma sort_nodes_Cons: "sort_nodes cmp (n # ns) = insert_node cmp n (sort_nodes cmp ns)"
  by (simp add: sort_nodes_def)

lemma set_sort_nodes: "set (sort_nodes cmp ns) = set ns"
  by (induction ns) (auto simp add: sort_nodes_def set_insert_node)

lemma sorted_insert_node:
  assumes "consistent_comparator cmp"
    and "sorted_wrt (\<lambda>a b. cmp (name a) (name b) \<le> 0) bs"
  shows "sorted_wrt (\<lambda>a b. cmp (name a) (name b) \<le> 0) (insert_node cmp a bs)"
  using assms(2)
proof (induction bs)
  case Nil
  show ?case by simp
next
  case (Cons b bs)
  from assms(1) have total: "\<And>x y. cmp x y \<le> 0 \<or> cmp y x \<le> 0"
    and trans: "\<And>x y z. cmp x y \<le> 0 \<Longrightarrow> cmp y z \<le> 0 \<Longrightarrow> cmp x z \<le> 0"
    unfolding consistent_comparator_def by blast+
  show ?case
  proof (cases "cmp (name a) (name b) \<le> 0")
    case True
    with Cons.prems trans show ?thesis by auto
  next
    case False
    with total have "cmp (name b) (name a) \<le> 0" by blast
    with False Cons show ?thesis by (auto simp add: set_insert_node)
  qed
qed

lemma sorted_sort_nodes:
  assumes "consistent_comparator cmp"
  shows "sorted_wrt (\<lambda>a b. cmp (name a) (name b) \<le> 0) (sort_nodes cmp ns)"
proof (induction ns)
  case Nil
  show ?case by (simp add: sort_nodes_def)
next
  case (Cons n ns)
  then show ?case
    unfolding sort_nodes_Cons by (rule sorted_insert_node[OF assms])
qed

lemma distinct_map_name_insert_node:
  "distinct (map name (insert_node cmp a bs)) \<longleftrightarrow> name a \<notin> name ` set bs \<and> distinct (map name bs)"
  by (induction bs) (auto simp add: set_insert_node)

lemma distinct_map_name_sort_nodes:
  "distinct (map name (sort_nodes cmp ns)) \<longleftrightarrow> distinct (map name ns)"
  by (induction ns)
     (auto simp add: sort_nodes_Nil sort_nodes_Cons distinct_map_name_insert_node set_sort_nodes)

subsection \<open>The builder\<close>

lemma buildHierarchy_no_rows: "buildHierarchy cmp [] lv mc = Inr []"
  by (cases "(cmp, [] :: row list, lv, mc)" rule: buildHierarchy.cases) simp_all

lemma buildHierarchy_leaf_case:
  assumes "buildHierarchy cmp rows [level] mc = Inr nodes" and "rows \<noteq> []"
  obtains groups pre where "group_rows level rows [] = Inr groups"
    and "list_all2 (\<lambda>kg n. leafNode mc (fst kg) (snd kg) = Inr n) (Object_entries groups) pre"
    and "nodes = sort_nodes cmp pre"
proof -
  from assms obtain groups where g: "group_rows level rows [] = Inr groups"
    by (auto split: sum.splits)
  with assms obtain pre where
    pre: "sequence_results (map (\<lambda>(groupName, groupRows). leafNode mc groupName groupRows)
            (Object_entries groups)) = Inr pre"
    and n: "nodes = sort_nodes cmp pre"
    by (auto split: sum.splits)
  from sequence_results_map[OF pre]
  have "list_all2 (\<lambda>kg n. leafNode mc (fst kg) (snd kg) = Inr n) (Object_entries groups) pre"
    by (simp add: case_prod_beta)
  with g n that show thesis by blast
qed

lemma buildHierarchy_group_case:
  assumes "buildHierarchy cmp rows (level # level' # lv) mc = Inr nodes" and "rows \<noteq> []"
  obtains groups pre where "group_rows level rows [] = Inr groups"
    and "list_all2 (\<lambda>kg n. \<exists>ch. buildHierarchy cmp (snd kg) (level' # lv) mc = Inr ch
                              \<and> n = Group (fst kg) ch (totalCount ch))
           (Object_entries groups) pre"
    and "nodes = sort_nodes cmp pre"
proof -
  from assms obtain groups where g: "group_rows level rows [] = Inr groups"
    by (auto split: sum.splits)
  with assms obtain pre where
    pre: "sequence_results (map (\<lambda>(groupName, groupRows).
              case buildHierarchy cmp groupRows (level' # lv) mc of
                Inl e \<Rightarrow> Inl e
              | Inr childNodes \<Rightarrow> Inr (Group groupName childNodes (totalCount childNodes)))
            (Object_entries groups)) = Inr pre"
    and n: "nodes = sort_nodes cmp pre"
    by (auto split: sum.splits)
  from sequence_results_map[OF pre]
  have "list_all2 (\<lambda>kg n. \<exists>ch. buildHierarchy cmp (snd kg) (level' # lv) mc = Inr ch
                              \<and> n = Group (fst kg) ch (totalCount ch))
           (Object_entries groups) pre"
    by (rule list_all2_mono) (auto simp add: case_prod_beta split: sum.splits)
  with g n that show thesis by blast
qed

lemma leafNode_is_Leaf:
  "leafNode mc k grp = Inr n \<Longrightarrow> \<exists>ms. n = Leaf k ms (length ms) \<and> distinct ms"
  by (auto simp add: leafNode_def Let_def distinct_new_Set split: option.splits if_splits sum.splits)

lemma filter_Boolean_cells:
  "map (\<lambda>row. row_trim row c) rs = map Inr cells \<Longrightarrow> filter_Boolean cells = id_values c rs"
proof (induction rs arbitrary: cells)
  case Nil
  then show ?case by (simp add: id_values_def)
next
  case (Cons r rs)
  from Cons.prems obtain cell cells' where cells: "cells = cell # cells'"
    and cell: "row_trim r c = Inr cell"
    and rest: "map (\<lambda>row. row_trim row c) rs = map Inr cells'"
    by (cases cells) auto
  from Cons.IH[OF rest] have "filter_Boolean cells' = id_values c rs" .
  with cell show ?case
    unfolding cells
    by (auto simp add: id_values_def row_trim_def split: option.splits if_splits)
qed

lemma leafNode_spec:
  assumes "leafNode mc g rs = Inr n"
  shows "n = Leaf g (spec_identifiers mc g rs) (length (spec_identifiers mc g rs))"
proof (cases "\<exists>c. mc = Some c \<and> c \<noteq> []")
  case False
  with assms show ?thesis
    by (auto simp add: leafNode_def spec_identifiers_def split: option.splits if_splits)
next
  case True
  then obtain c where c: "mc = Some c" "c \<noteq> []" by blast
  with assms obtain cells where cells: "sequence_results (map (\<lambda>row. row_trim row c) rs) = Inr cells"
    and n: "n = Leaf g (new_Set (filter_Boolean cells)) (length (new_Set (filter_Boolean cells)))"
    by (auto simp add: leafNode_def Let_def split: sum.splits)
  from sequence_results_Inr[OF cells] have "filter_Boolean cells = id_values c rs"
    by (rule filter_Boolean_cells)
  with n c show ?thesis by (simp add: spec_identifiers_def new_Set_first_seen)
qed

lemma leafNode_returns:
  assumes "\<forall>r\<in>set rs. case mc of None \<Rightarrow> True
             | Some c \<Rightarrow> c = [] \<or> r c \<noteq> None \<or> c \<notin> set object_prototype_keys"
  shows "\<exists>n. leafNode mc g rs = Inr n"
proof (cases "\<exists>c. mc = Some c \<and> c \<noteq> []")
  case False
  then show ?thesis by (auto simp add: leafNode_def split: option.splits)
next
  case True
  then obtain c where c: "mc = Some c" "c \<noteq> []" by blast
  with assms have "\<forall>r\<in>set rs. \<exists>y. row_trim r c = Inr y"
    by (auto simp add: row_trim_def split: option.splits)
  from sequence_results_returns[OF this] c show ?thesis
    by (auto simp add: leafNode_def Let_def)
qed

lemma sorted_forest_leaves:
  assumes "consistent_comparator cmp"
    and "list_all2 (\<lambda>kg n. leafNode mc (fst kg) (snd kg) = Inr n) entries pre"
  shows "sorted_forest cmp (sort_nodes cmp pre)"
proof -
  have "\<forall>n\<in>set pre. \<exists>nm ms c. n = Leaf nm ms c"
    using list_all2_set2[OF assms(2)] leafNode_is_Leaf by blast
  then show ?thesis
    by (subst sorted_forest.simps)
       (auto simp add: sorted_sort_nodes[OF assms(1)] list_all_iff set_sort_nodes)
qed

lemma totalCount_sum: "totalCount ns = sum_list (map count ns)"
proof -
  have "foldl (\<lambda>sum child. sum + count child) a ns = a + sum_list (map count ns)" for a
    by (induction ns arbitrary: a) simp_all
  then show ?thesis by (simp add: totalCount_def)
qed

lemma well_counted_count: "well_counted n \<Longrightarrow> count n = length (leaf_ids n)"
  by (cases n) simp_all

lemma totalCount_well_counted:
  "list_all well_counted ch \<Longrightarrow> totalCount ch = length (concat (map leaf_ids ch))"
  by (induction ch) (simp_all add: totalCount_sum well_counted_count)

lemma well_counted_descendants:
  "well_counted n \<Longrightarrow> m \<in> set (descendants n) \<Longrightarrow> well_counted m"
proof (induction n arbitrary: m)
  case (Leaf nm ms c)
  then show ?case by simp
next
  case (Group nm ch c)
  from Group.prems(2) obtain child where child: "child \<in> set ch"
    and m: "m = child \<or> m \<in> set (descendants child)"
    by auto
  from Group.prems(1) child have "well_counted child" by (simp add: list_all_iff)
  with m Group.IH[OF child] show ?case by blast
qed

lemma buildHierarchy_well_counted:
  "buildHierarchy cmp rows lv mc = Inr nodes \<Longrightarrow> list_all well_counted nodes"
proof (induction cmp rows lv mc arbitrary: nodes rule: buildHierarchy.induct)
  case (1 cmp rows mc)
  then show ?case by (auto split: if_splits sum.splits)
next
  case (2 cmp rows level mc)
  show ?case
  proof (cases "rows = []")
    case True
    with "2.prems" show ?thesis by simp
  next
    case False
    from "2.prems" False obtain groups pre where
      pre: "list_all2 (\<lambda>kg n. leafNode mc (fst kg) (snd kg) = Inr n) (Object_entries groups) pre"
      and n: "nodes = sort_nodes cmp pre"
      by (rule buildHierarchy_leaf_case)
    have "\<forall>n\<in>set pre. well_counted n"
      using list_all2_set2[OF pre] leafNode_is_Leaf by fastforce
    then show ?thesis by (simp add: n list_all_iff set_sort_nodes)
  qed
next
  case (3 cmp rows level level' lv mc)
  show ?case
  proof (cases "rows = []")
    case True
    with "3.prems" show ?thesis by simp
  next
    case False
    from "3.prems" False obtain groups pre where
      g: "group_rows level rows [] = Inr groups"
      and pre: "list_all2 (\<lambda>kg n. \<exists>ch. buildHierarchy cmp (snd kg) (level' # lv) mc = Inr ch
                              \<and> n = Group (fst kg) ch (totalCount ch))
           (Object_entries groups) pre"
      and n: "nodes = sort_nodes cmp pre"
      by (rule buildHierarchy_group_case)
    have "\<forall>n\<in>set pre. well_counted n"
    proof
      fix n assume "n \<in> set pre"
      with list_all2_set2[OF pre] obtain kg ch where kg: "kg \<in> set (Object_entries groups)"
        and ch: "buildHierarchy cmp (snd kg) (level' # lv) mc = Inr ch"
        and n: "n = Group (fst kg) ch (totalCount ch)"
        by blast
      have "list_all well_counted ch"
        using "3.IH"[OF False g _ _ ch, of kg "fst kg"] kg by (simp add: prod_eq_iff)
      with n show "well_counted n" by (simp add: totalCount_well_counted)
    qed
    then show ?thesis by (simp add: n list_all_iff set_sort_nodes)
  qed
qed

lemma count_vs_distinct:
  assumes "well_counted n"
  shows "card (set (leaf_ids n)) \<le> count n"
    and "count n = card (set (leaf_ids n)) \<longleftrightarrow> distinct (leaf_ids n)"
proof -
  from assms have c: "count n = length (leaf_ids n)" by (rule well_counted_count)
  show "card (set (leaf_ids n)) \<le> count n"
    unfolding c by (rule card_length)
  show "count n = card (set (leaf_ids n)) \<longleftrightarrow> distinct (leaf_ids n)"
    unfolding c using card_distinct[of "leaf_ids n"] distinct_card[of "leaf_ids n"] by auto
qed

lemma last_level_nodes:
  assumes "buildHierarchy cmp rows [level] mc = Inr nodes"
  shows "set nodes =
           (\<lambda>g. Leaf g (spec_identifiers mc g (group_of level rows g))
                   (length (spec_identifiers mc g (group_of level rows g))))
           ` {g. group_of level rows g \<noteq> []}"
    and "distinct (map name nodes)"
proof -
  let ?leaf = "\<lambda>g. Leaf g (spec_identifiers mc g (group_of level rows g))
                   (length (spec_identifiers mc g (group_of level rows g)))"
  show "set nodes = ?leaf ` {g. group_of level rows g \<noteq> []}"
  proof (cases "rows = []")
    case True
    with assms show ?thesis by (simp add: group_of_def)
  next
    case False
    from assms False obtain groups pre where
      g: "group_rows level rows [] = Inr groups"
      and pre: "list_all2 (\<lambda>kg n. leafNode mc (fst kg) (snd kg) = Inr n) (Object_entries groups) pre"
      and n: "nodes = sort_nodes cmp pre"
      by (rule buildHierarchy_leaf_case)
    have entry: "kg \<in> set (Object_entries groups) \<longleftrightarrow>
                   snd kg = group_of level rows (fst kg) \<and> snd kg \<noteq> []" for kg
      using group_rows_entries(2)[OF g, of "fst kg" "snd kg"] by (simp add: set_Object_entries)
    show ?thesis
    proof (intro set_eqI iffI)
      fix x assume "x \<in> set nodes"
      then have "x \<in> set pre" by (simp add: n set_sort_nodes)
      with list_all2_set2[OF pre] obtain kg where kg: "kg \<in> set (Object_entries groups)"
        and x: "leafNode mc (fst kg) (snd kg) = Inr x" by blast
      from kg entry have "snd kg = group_of level rows (fst kg)" "group_of level rows (fst kg) \<noteq> []"
        by auto
      with leafNode_spec[OF x] show "x \<in> ?leaf ` {g. group_of level rows g \<noteq> []}"
        by auto
    next
      fix x assume "x \<in> ?leaf ` {g. group_of level rows g \<noteq> []}"
      then obtain k where k: "group_of level rows k \<noteq> []" and x: "x = ?leaf k" by blast
      from k entry[of "(k, group_of level rows k)"]
      have "(k, group_of level rows k) \<in> set (Object_entries groups)" by simp
      with list_all2_set1[OF pre] obtain y where y: "y \<in> set pre"
        and "leafNode mc k (group_of level rows k) = Inr y" by fastforce
      with leafNode_spec x have "y = x" by simp
      with y show "x \<in> set nodes" by (simp add: n set_sort_nodes)
    qed
  qed
  show "distinct (map name nodes)"
  proof (cases "rows = []")
    case True
    with assms show ?thesis by simp
  next
    case False
    from assms False obtain groups pre where
      g: "group_rows level rows [] = Inr groups"
      and pre: "list_all2 (\<lambda>kg n. leafNode mc (fst kg) (snd kg) = Inr n) (Object_entries groups) pre"
      and n: "nodes = sort_nodes cmp pre"
      by (rule buildHierarchy_leaf_case)
    have "list_all2 (\<lambda>kg n. fst kg = name n) (Object_entries groups) pre"
      using pre by (rule list_all2_mono) (auto dest: leafNode_spec)
    then have "map fst (Object_entries groups) = map name pre"
      by (induction rule: list_all2_induct) auto
    moreover have "distinct (map fst (Object_entries groups))"
      using group_rows_entries(1)[OF g] by (rule distinct_Object_entries)
    ultimately show ?thesis by (simp add: n distinct_map_name_sort_nodes)
  qed
qed

text \<open>
  Above the last level the builder returns one group for each group of the rows, and the
  children of a group are what the builder returns on the rows of that group with the
  remaining levels.
\<close>

lemma upper_level_nodes:
  assumes "buildHierarchy cmp rows (level # level' # lv) mc = Inr nodes"
  shows "distinct (map name nodes)"
    and "name ` set nodes = {g. group_of level rows g \<noteq> []}"
    and "\<forall>n\<in>set nodes. \<exists>ch. n = Group (name n) ch (totalCount ch)
           \<and> buildHierarchy cmp (group_of level rows (name n)) (level' # lv) mc = Inr ch"
proof -
  have "distinct (map name nodes) \<and> name ` set nodes = {g. group_of level rows g \<noteq> []}
     \<and> (\<forall>n\<in>set nodes. \<exists>ch. n = Group (name n) ch (totalCount ch)
           \<and> buildHierarchy cmp (group_of level rows (name n)) (level' # lv) mc = Inr ch)"
  proof (cases "rows = []")
    case True
    with assms show ?thesis by (simp add: group_of_def)
  next
    case False
    from assms False obtain groups pre where
      g: "group_rows level rows [] = Inr groups"
      and pre: "list_all2 (\<lambda>kg n. \<exists>ch. buildHierarchy cmp (snd kg) (level' # lv) mc = Inr ch
                              \<and> n = Group (fst kg) ch (totalCount ch))
           (Object_entries groups) pre"
      and n: "nodes = sort_nodes cmp pre"
      by (rule buildHierarchy_group_case)
    have entry: "kg \<in> set (Object_entries groups) \<longleftrightarrow>
                   snd kg = group_of level rows (fst kg) \<and> snd kg \<noteq> []" for kg
      using group_rows_entries(2)[OF g, of "fst kg" "snd kg"] by (simp add: set_Object_entries)
    have "list_all2 (\<lambda>kg n. fst kg = name n) (Object_entries groups) pre"
      using pre by (rule list_all2_mono) auto
    then have names: "map fst (Object_entries groups) = map name pre"
      by (induction rule: list_all2_induct) auto
    have "distinct (map fst (Object_entries groups))"
      using group_rows_entries(1)[OF g] by (rule distinct_Object_entries)
    with names have d: "distinct (map name nodes)"
      by (simp add: n distinct_map_name_sort_nodes)
    have "name ` set nodes = fst ` set (Object_entries groups)"
      using names by (metis n set_sort_nodes set_map)
    also have "\<dots> = {g. group_of level rows g \<noteq> []}"
    proof (intro set_eqI iffI)
      fix k assume "k \<in> fst ` set (Object_entries groups)"
      then obtain kg where "kg \<in> set (Object_entries groups)" "k = fst kg" by blast
      with entry[of kg] show "k \<in> {g. group_of level rows g \<noteq> []}" by auto
    next
      fix k assume "k \<in> {g. group_of level rows g \<noteq> []}"
      with entry[of "(k, group_of level rows k)"]
      have "(k, group_of level rows k) \<in> set (Object_entries groups)" by simp
      then show "k \<in> fst ` set (Object_entries groups)" by force
    qed
    finally have s: "name ` set nodes = {g. group_of level rows g \<noteq> []}" .
    have "\<forall>n\<in>set nodes. \<exists>ch. n = Group (name n) ch (totalCount ch)
           \<and> buildHierarchy cmp (group_of level rows (name n)) (level' # lv) mc = Inr ch"
    proof
      fix x assume "x \<in> set nodes"
      then have "x \<in> set pre" by (simp add: n set_sort_nodes)
      with list_all2_set2[OF pre] obtain kg ch where kg: "kg \<in> set (Object_entries groups)"
        and ch: "buildHierarchy cmp (snd kg) (level' # lv) mc = Inr ch"
        and x: "x = Group (fst kg) ch (totalCount ch)" by blast
      from kg entry[of kg] have "snd kg = group_of level rows (fst kg)" by simp
      with ch x show "\<exists>ch. x = Group (name x) ch (totalCount ch)
           \<and> buildHierarchy cmp (group_of level rows (name x)) (level' # lv) mc = Inr ch"
        by simp
    qed
    with d s show ?thesis by blast
  qed
  then show "distinct (map name nodes)"
    and "name ` set nodes = {g. group_of level rows g \<noteq> []}"
    and "\<forall>n\<in>set nodes. \<exists>ch. n = Group (name n) ch (totalCount ch)
           \<and> buildHierarchy cmp (group_of level rows (name n)) (level' # lv) mc = Inr ch"
    by blast+
qed

text \<open>
  The builder returns a tree on every input with at least one level on which no property
  read reaches \<open>Object.prototype\<close>.
\<close>

lemma no_prototype_clash_subset:
  "no_prototype_clash rows lv mc \<Longrightarrow> set rs \<subseteq> set rows \<Longrightarrow> set lv' \<subseteq> set lv
     \<Longrightarrow> no_prototype_clash rs lv' mc"
  unfolding no_prototype_clash_def by blast

lemma no_prototype_clash_groups:
  assumes "no_prototype_clash rows (level # lv) mc"
  shows "\<exists>groups. group_rows level rows [] = Inr groups"
proof -
  from assms have "\<forall>r\<in>set rows.
      \<exists>k. firstLevelValue level r = Inr k \<and> k \<notin> set object_prototype_keys"
    by (auto simp add: no_prototype_clash_def intro!: firstLevelValue_returns)
  then show ?thesis by (rule group_rows_returns)
qed

lemma buildHierarchy_returns:
  "lv \<noteq> [] \<Longrightarrow> no_prototype_clash rows lv mc \<Longrightarrow> \<exists>nodes. buildHierarchy cmp rows lv mc = Inr nodes"
proof (induction cmp rows lv mc rule: buildHierarchy.induct)
  case (1 cmp rows mc)
  then show ?case by simp
next
  case (2 cmp rows level mc)
  from no_prototype_clash_groups[OF "2.prems"(2)] obtain groups
    where g: "group_rows level rows [] = Inr groups" by blast
  have "\<forall>kg\<in>set (Object_entries groups).
          \<exists>n. (\<lambda>(groupName, groupRows). leafNode mc groupName groupRows) kg = Inr n"
  proof
    fix kg assume "kg \<in> set (Object_entries groups)"
    then have "snd kg = group_of level rows (fst kg)"
      using group_rows_entries(2)[OF g, of "fst kg" "snd kg"] by (simp add: set_Object_entries)
    then have "set (snd kg) \<subseteq> set rows" by (auto simp add: group_of_def)
    with "2.prems"(2) have "\<exists>n. leafNode mc (fst kg) (snd kg) = Inr n"
      by (intro leafNode_returns) (auto simp add: no_prototype_clash_def)
    then show "\<exists>n. (\<lambda>(groupName, groupRows). leafNode mc groupName groupRows) kg = Inr n"
      by (simp add: case_prod_beta)
  qed
  from sequence_results_returns[OF this] g show ?case
    by auto
next
  case (3 cmp rows level level' lv mc)
  show ?case
  proof (cases "rows = []")
    case True
    then show ?thesis by simp
  next
    case False
    from no_prototype_clash_groups[OF "3.prems"(2)] obtain groups
      where g: "group_rows level rows [] = Inr groups" by blast
    have "\<forall>kg\<in>set (Object_entries groups).
            \<exists>n. (\<lambda>(groupName, groupRows).
                   case buildHierarchy cmp groupRows (level' # lv) mc of
                     Inl e \<Rightarrow> Inl e
                   | Inr childNodes \<Rightarrow> Inr (Group groupName childNodes (totalCount childNodes)))
                 kg = Inr n"
    proof
      fix kg assume kg: "kg \<in> set (Object_entries groups)"
      then have "snd kg = group_of level rows (fst kg)"
        using group_rows_entries(2)[OF g, of "fst kg" "snd kg"] by (simp add: set_Object_entries)
      then have "set (snd kg) \<subseteq> set rows" by (auto simp add: group_of_def)
      with "3.prems"(2) have "no_prototype_clash (snd kg) (level' # lv) mc"
        by (rule no_prototype_clash_subset) auto
      with "3.IH"[OF False g kg, of "fst kg" "snd kg"]
      obtain ch where "buildHierarchy cmp (snd kg) (level' # lv) mc = Inr ch" by auto
      then show "\<exists>n. (\<lambda>(groupName, groupRows).
                   case buildHierarchy cmp groupRows (level' # lv) mc of
                     Inl e \<Rightarrow> Inl e
                   | Inr childNodes \<Rightarrow> Inr (Group groupName childNodes (totalCount childNodes)))
                 kg = Inr n" by (simp add: case_prod_beta)
    qed
    from sequence_results_returns[OF this] g False show ?thesis
      by auto
  qed
qed

subsection \<open>The validator\<close>

lemma getDuplicateAliases_empty_iff: "getDuplicateAliases m = [] \<longleftrightarrow> distinct (aliases m)"
proof -
  have "new_Set ys = [] \<longleftrightarrow> ys = []" for ys :: "jsstring list"
    using set_new_Set[of ys] by (metis set_empty)
  then show ?thesis
    using duplicates_empty_iff[of "aliases m"]
    by (simp add: getDuplicateAliases_def aliases_def Let_def)
qed

lemma hasDuplicateSelections_iff: "hasDuplicateSelections m \<longleftrightarrow> \<not> distinct (selections m)"
proof -
  have sel: "filter (\<lambda>s. s \<noteq> [])
              (filter (\<lambda>s. s \<noteq> []) (levels m)
               @ (case midColumn m of None \<Rightarrow> [] | Some c \<Rightarrow> [c])) = selections m"
    by (simp add: selections_def split: option.splits)
  have "length xs \<noteq> length (new_Set xs) \<longleftrightarrow> \<not> distinct xs" for xs :: "jsstring list"
    using card_distinct[of xs] distinct_card[of xs] by (auto simp add: length_new_Set)
  moreover have "hasDuplicateSelections m
      \<longleftrightarrow> length (selections m) \<noteq> length (new_Set (selections m))"
    unfolding hasDuplicateSelections_def Let_def sel by (rule refl)
  ultimately show ?thesis by blast
qed

subsection \<open>Search and filter\<close>

lemma nodeMatchesSearch_spec:
  "nodeMatchesSearch l n q = spec_matches l n q"
proof (induction n)
  case (Leaf nm ms c)
  show ?case by (simp add: spec_matches_def own_hit_def)
next
  case (Group nm ch c)
  have "list_ex (\<lambda>child. nodeMatchesSearch l child q) ch
        = list_ex (\<lambda>child. spec_matches l child q) ch"
    using Group.IH by (simp add: list_ex_iff)
  then show ?case
    by (auto simp add: spec_matches_def own_hit_def list_ex_iff)
qed

lemma filterHierarchy_unfold:
  "trim q \<noteq> [] \<Longrightarrow> filterHierarchy l nodes q =
     map (\<lambda>node. case node of
                   Group nm ch c \<Rightarrow> Group nm (filterHierarchy l ch q) c
                 | Leaf nm ms c \<Rightarrow> node)
       (filter (\<lambda>node. nodeMatchesSearch l node q
                  \<or> (case node of
                         Group nm ch c \<Rightarrow> filterHierarchy l ch q \<noteq> []
                       | Leaf nm ms c \<Rightarrow> False))
               nodes)"
proof -
  have "(\<lambda>node. if nodeMatchesSearch l node q then True
              else (case node of Group nm ch c \<Rightarrow> filterHierarchy l ch q \<noteq> []
                       | Leaf nm ms c \<Rightarrow> False))
      = (\<lambda>node. nodeMatchesSearch l node q
                  \<or> (case node of
                         Group nm ch c \<Rightarrow> filterHierarchy l ch q \<noteq> []
                       | Leaf nm ms c \<Rightarrow> False))"
    by auto
  moreover assume "trim q \<noteq> []"
  ultimately show ?thesis
    by (subst filterHierarchy.simps) simp
qed

lemma filterHierarchy_blank: "trim q = [] \<Longrightarrow> filterHierarchy l nodes q = nodes"
  by (subst filterHierarchy.simps) simp

lemma filterHierarchy_Nil: "filterHierarchy l [] q = []"
  by (subst filterHierarchy.simps) simp

lemma filterHierarchy_Leaf:
  "trim q \<noteq> [] \<Longrightarrow> filterHierarchy l (Leaf nm ms c # ns) q =
     (if nodeMatchesSearch l (Leaf nm ms c) q then Leaf nm ms c # filterHierarchy l ns q
      else filterHierarchy l ns q)"
  by (simp add: filterHierarchy_unfold)

lemma filterHierarchy_Group:
  "trim q \<noteq> [] \<Longrightarrow> filterHierarchy l (Group nm ch c # ns) q =
     (if nodeMatchesSearch l (Group nm ch c) q \<or> filterHierarchy l ch q \<noteq> []
      then Group nm (filterHierarchy l ch q) c # filterHierarchy l ns q
      else filterHierarchy l ns q)"
  by (simp add: filterHierarchy_unfold)

lemma forest_nodes_Cons: "forest_nodes (n # ns) = n # descendants n @ forest_nodes ns"
  by (simp add: forest_nodes_def)

lemma descendants_Group: "descendants (Group nm ch c) = forest_nodes ch"
  by (simp add: forest_nodes_def)

lemma in_forest_nodes:
  "x \<in> set (forest_nodes ns) \<longleftrightarrow> (\<exists>n\<in>set ns. x = n \<or> x \<in> set (descendants n))"
  by (auto simp add: forest_nodes_def)

lemma forest_nodes_child:
  assumes "Group nm ch c \<in> set nodes" and "x \<in> set (forest_nodes ch)"
  shows "x \<in> set (forest_nodes nodes)"
proof -
  from assms(2) have "x \<in> set (descendants (Group nm ch c))"
    by (simp add: forest_nodes_def)
  with assms(1) show ?thesis
    unfolding in_forest_nodes by blast
qed

lemma filter_groups_origin:
  "trim q \<noteq> [] \<Longrightarrow> Group nm ch c \<in> set (forest_nodes (filterHierarchy l nodes q)) \<Longrightarrow>
     \<exists>ch0. Group nm ch0 c \<in> set (forest_nodes nodes) \<and> ch = filterHierarchy l ch0 q"
proof (induction l nodes q arbitrary: nm ch c rule: filterHierarchy.induct)
  case (1 l nodes q)
  let ?keep = "\<lambda>node. nodeMatchesSearch l node q
                  \<or> (case node of
                         Group nm ch c \<Rightarrow> filterHierarchy l ch q \<noteq> []
                       | Leaf nm ms c \<Rightarrow> False)"
  let ?prune = "\<lambda>node. case node of
                   Group nm ch c \<Rightarrow> Group nm (filterHierarchy l ch q) c
                 | Leaf nm ms c \<Rightarrow> node"
  from "1.prems" have eq: "filterHierarchy l nodes q = map ?prune (filter ?keep nodes)"
    by (simp add: filterHierarchy_unfold)
  from "1.prems"(2) obtain n where n: "n \<in> set nodes" "?keep n"
    and g: "Group nm ch c = ?prune n \<or> Group nm ch c \<in> set (descendants (?prune n))"
    unfolding eq in_forest_nodes by auto
  show ?case
  proof (cases n)
    case (Leaf nm' ms' c')
    with g show ?thesis by simp
  next
    case (Group nm' ch' c')
    from g show ?thesis
    proof
      assume "Group nm ch c = ?prune n"
      with Group have "nm = nm'" "c = c'" "ch = filterHierarchy l ch' q" by simp_all
      with n(1) Group show ?thesis by (auto simp add: in_forest_nodes)
    next
      assume "Group nm ch c \<in> set (descendants (?prune n))"
      with Group have "Group nm ch c \<in> set (forest_nodes (filterHierarchy l ch' q))"
        by (simp add: in_forest_nodes)
      moreover have "n \<in> set (filter (\<lambda>node. if nodeMatchesSearch l node q then True
              else (case node of Group nm ch c \<Rightarrow> filterHierarchy l ch q \<noteq> []
                       | Leaf nm ms c \<Rightarrow> False)) nodes)"
        using n by (auto split: node.splits)
      ultimately obtain ch0 where "Group nm ch0 c \<in> set (forest_nodes ch')"
          "ch = filterHierarchy l ch0 q"
        using "1.IH"(2)[OF "1.prems"(1) _ Group "1.prems"(1)] by blast
      with n(1) Group show ?thesis
        using forest_nodes_child by blast
    qed
  qed
qed

lemmas controller_eval = run_def step_def searchEffect_def filteredHierarchy_def
  initial_state_def isDifferent_def reconcile_def isExpanded_def memoizedToggleExpanded_def
  nodeKeyOf_def show_nat.simps ascii_toLowerCase_def
  filterHierarchy_Nil filterHierarchy_Leaf filterHierarchy_Group filterHierarchy_blank

subsection \<open>The expansion controller\<close>

text \<open>
  While a query is active the effect keeps a saved state that has at least one key, and
  takes the current state for the saved one whenever the saved one has no key. A
  reconciliation toggles the keys of the target that are not expanded now, then every key
  of the current state that is not expanded in the target, whatever its current value.
\<close>

lemma snapshot_kept_when_held:
  "trim (searchQuery s) \<noteq> [] \<Longrightarrow> Object_keys (originalExpandedState s) \<noteq> []
     \<Longrightarrow> snd (searchEffect l h t s) = originalExpandedState s"
  by (simp add: searchEffect_def Let_def)

lemma snapshot_taken_when_empty:
  "trim (searchQuery s) \<noteq> [] \<Longrightarrow> Object_keys (originalExpandedState s) = []
     \<Longrightarrow> snd (searchEffect l h t s) = expandedNodes s"
  by (simp add: searchEffect_def Let_def)

lemma in_reconcile:
  "k \<in> set (reconcile cur tgt) \<longleftrightarrow>
     (k \<in> set (Object_keys tgt) \<and> \<not> isExpanded cur k)
     \<or> (k \<in> set (Object_keys cur) \<and> \<not> isExpanded tgt k)"
  by (auto simp add: reconcile_def)

subsection \<open>The tree and the table\<close>


lemma group_rows_keys:
  "group_rows level rows g0 = Inr g \<Longrightarrow> r \<in> set rows \<Longrightarrow> \<exists>k. firstLevelValue level r = Inr k"
proof (induction rows arbitrary: g0)
  case Nil
  then show ?case by simp
next
  case (Cons a rows)
  from Cons.prems(1) obtain key where key: "firstLevelValue level a = Inr key"
    by (auto split: sum.splits)
  show ?case
  proof (cases "r = a")
    case True
    with key show ?thesis by blast
  next
    case False
    with Cons.prems(2) have r: "r \<in> set rows" by simp
    from Cons.prems(1) key obtain g1 where "group_rows level rows g1 = Inr g"
      by (auto split: option.splits if_splits)
    from Cons.IH[OF this r] show ?thesis .
  qed
qed

lemma buildHierarchy_keys:
  assumes "buildHierarchy cmp rows (level # lv) mc = Inr nodes" and "r \<in> set rows"
  shows "\<exists>k. firstLevelValue level r = Inr k"
proof -
  from assms(2) have ne: "rows \<noteq> []" by auto
  have "\<exists>groups. group_rows level rows [] = Inr groups"
  proof (cases lv)
    case Nil
    with assms(1) ne show ?thesis by (auto split: sum.splits)
  next
    case (Cons level' lv')
    with assms(1) ne show ?thesis by (auto split: sum.splits)
  qed
  then show ?thesis using group_rows_keys assms(2) by blast
qed



lemma set_table_pairs: "set (table_pairs rows lv mc) = pairs_below rows lv (last lv) mc"
  by (auto simp add: table_pairs_def pairs_below_def)

lemma set_table_identifiers:
  "set (table_identifiers rows ll mc) = (\<Union>r\<in>set rows. set (table_identifiers [r] ll mc))"
  by (auto simp add: table_identifiers_def last_level_names_def id_values_def
        split: option.splits)

lemma finite_pairs_below: "finite (pairs_below rows lv ll mc)"
  by (simp add: pairs_below_def)

lemma set_first_seen: "set (first_seen xs) = set xs"
  using set_new_Set[of xs] by (simp add: new_Set_first_seen)

lemma distinct_first_seen: "distinct (first_seen xs)"
  using distinct_new_Set[of xs] by (simp add: new_Set_first_seen)

lemma in_group_of: "r \<in> set (group_of level rows g) \<longleftrightarrow> r \<in> set rows \<and> firstLevelValue level r = Inr g"
  by (simp add: group_of_def)

lemma group_of_nonempty: "group_of level rows g \<noteq> [] \<longleftrightarrow> (\<exists>r\<in>set rows. firstLevelValue level r = Inr g)"
  by (auto simp add: group_of_def filter_empty_conv)

lemma finite_group_keys: "finite {g. group_of level rows g \<noteq> []}"
proof -
  have "{g. group_of level rows g \<noteq> []}
          \<subseteq> (\<lambda>r. case firstLevelValue level r of Inr g \<Rightarrow> g | Inl e \<Rightarrow> []) ` set rows"
    by (force simp add: group_of_nonempty image_iff)
  then show ?thesis by (rule finite_subset) simp
qed

text \<open>Partition of the table's identifiers and pairs by the first level.\<close>

lemma table_identifiers_partition:
  assumes "\<forall>r\<in>set rows. \<exists>k. firstLevelValue level r = Inr k"
  shows "(\<Union>g\<in>{g. group_of level rows g \<noteq> []}. set (table_identifiers (group_of level rows g) ll mc))
           = set (table_identifiers rows ll mc)"
proof -
  have "(\<Union>g\<in>{g. group_of level rows g \<noteq> []}. \<Union>r\<in>set (group_of level rows g). A r)
          = (\<Union>r\<in>set rows. A r)" for A :: "row \<Rightarrow> jsstring set"
    using assms by (fastforce simp add: in_group_of group_of_nonempty)
  then show ?thesis
    unfolding set_table_identifiers[of "group_of level rows _"] set_table_identifiers[of rows]
    by simp
qed

lemma pairs_below_partition:
  assumes "\<forall>r\<in>set rows. \<exists>k. firstLevelValue level r = Inr k"
  shows "pairs_below rows (level # lv) ll mc
           = (\<Union>g\<in>{g. group_of level rows g \<noteq> []}.
                (\<lambda>pv. (Inr g # fst pv, snd pv)) ` pairs_below (group_of level rows g) lv ll mc)"
proof (intro set_eqI iffI)
  fix x assume "x \<in> pairs_below rows (level # lv) ll mc"
  then obtain r v where r: "r \<in> set rows" and v: "v \<in> set (table_identifiers [r] ll mc)"
    and x: "x = (firstLevelValue level r # map (\<lambda>l. firstLevelValue l r) lv, v)"
    by (auto simp add: pairs_below_def)
  from assms r obtain k where k: "firstLevelValue level r = Inr k" by blast
  with r have "r \<in> set (group_of level rows k)" by (simp add: in_group_of)
  with v have "(map (\<lambda>l. firstLevelValue l r) lv, v) \<in> pairs_below (group_of level rows k) lv ll mc"
    by (auto simp add: pairs_below_def)
  moreover from r k have "group_of level rows k \<noteq> []" by (auto simp add: group_of_nonempty)
  ultimately show "x \<in> (\<Union>g\<in>{g. group_of level rows g \<noteq> []}.
                (\<lambda>pv. (Inr g # fst pv, snd pv)) ` pairs_below (group_of level rows g) lv ll mc)"
    using x k by force
next
  fix x assume "x \<in> (\<Union>g\<in>{g. group_of level rows g \<noteq> []}.
                (\<lambda>pv. (Inr g # fst pv, snd pv)) ` pairs_below (group_of level rows g) lv ll mc)"
  then obtain g r v where "r \<in> set (group_of level rows g)"
    and "v \<in> set (table_identifiers [r] ll mc)"
    and "x = (Inr g # map (\<lambda>l. firstLevelValue l r) lv, v)"
    by (auto simp add: pairs_below_def)
  then show "x \<in> pairs_below rows (level # lv) ll mc"
    by (auto simp add: pairs_below_def in_group_of intro!: bexI[of _ r])
qed

lemma card_pairs_below_partition:
  assumes "\<forall>r\<in>set rows. \<exists>k. firstLevelValue level r = Inr k"
  shows "card (pairs_below rows (level # lv) ll mc)
           = (\<Sum>g\<in>{g. group_of level rows g \<noteq> []}.
                card (pairs_below (group_of level rows g) lv ll mc))"
proof -
  let ?K = "{g. group_of level rows g \<noteq> []}"
  let ?A = "\<lambda>g. (\<lambda>pv. (Inr g # fst pv, snd pv)) ` pairs_below (group_of level rows g) lv ll mc"
  have "card (\<Union>g\<in>?K. ?A g) = (\<Sum>g\<in>?K. card (?A g))"
  proof (rule card_UN_disjoint)
    show "finite ?K" by (rule finite_group_keys)
    show "\<forall>g\<in>?K. finite (?A g)" by (simp add: finite_pairs_below)
    show "\<forall>g\<in>?K. \<forall>h\<in>?K. g \<noteq> h \<longrightarrow> ?A g \<inter> ?A h = {}" by auto
  qed
  moreover have "card (?A g) = card (pairs_below (group_of level rows g) lv ll mc)" for g
    by (rule card_image) (auto simp add: inj_on_def prod_eq_iff)
  ultimately show ?thesis
    unfolding pairs_below_partition[OF assms] by simp
qed

lemma card_pairs_below_Nil:
  "card (pairs_below rows [] ll mc) = card (set (table_identifiers rows ll mc))"
proof -
  have "pairs_below rows [] ll mc = (\<lambda>v. ([], v)) ` set (table_identifiers rows ll mc)"
    unfolding set_table_identifiers[of rows] by (auto simp add: pairs_below_def)
  then show ?thesis by (simp add: card_image inj_on_def)
qed

lemma spec_identifiers_group:
  assumes "group_of level rows g \<noteq> []"
  shows "set (spec_identifiers mc g (group_of level rows g))
           = set (table_identifiers (group_of level rows g) level mc)"
proof -
  have "set (last_level_names (group_of level rows g) level) = {g}"
    using assms
    by (auto simp add: last_level_names_def in_group_of neq_Nil_conv split: sum.splits)
  then show ?thesis
    by (simp add: spec_identifiers_def table_identifiers_def set_first_seen split: option.splits)
qed

lemma level_nodes:
  assumes "buildHierarchy cmp rows (level # lv) mc = Inr nodes"
  shows "distinct (map name nodes)"
    and "name ` set nodes = {g. group_of level rows g \<noteq> []}"
proof -
  show "distinct (map name nodes)"
    using assms last_level_nodes(2) upper_level_nodes(1) by (cases lv) auto
  show "name ` set nodes = {g. group_of level rows g \<noteq> []}"
  proof (cases lv)
    case Nil
    with assms have b: "buildHierarchy cmp rows [level] mc = Inr nodes" by simp
    show ?thesis unfolding last_level_nodes(1)[OF b] by (auto simp add: image_iff)
  next
    case (Cons level' lv')
    with assms upper_level_nodes(2) show ?thesis by auto
  qed
qed

lemma sum_over_nodes:
  assumes "buildHierarchy cmp rows (level # lv) mc = Inr nodes"
    and "\<And>n. n \<in> set nodes \<Longrightarrow> count n = h (name n)"
  shows "totalCount nodes = (\<Sum>g\<in>{g. group_of level rows g \<noteq> []}. h g)"
proof -
  from level_nodes(1)[OF assms(1)] have d: "distinct nodes" and inj: "inj_on name (set nodes)"
    by (simp_all add: distinct_map)
  have "totalCount nodes = sum_list (map count nodes)" by (rule totalCount_sum)
  also have "\<dots> = sum count (set nodes)" using d by (rule sum_list_distinct_conv_sum_set)
  also have "\<dots> = sum (h \<circ> name) (set nodes)" using assms(2) by (intro sum.cong) simp_all
  also have "\<dots> = sum h (name ` set nodes)" using inj by (simp add: sum.reindex)
  finally show ?thesis unfolding level_nodes(2)[OF assms(1)] .
qed

lemma leaf_ids_table_identifiers:
  "buildHierarchy cmp rows lv mc = Inr nodes \<Longrightarrow> lv \<noteq> []
     \<Longrightarrow> (\<Union>n\<in>set nodes. set (leaf_ids n)) = set (table_identifiers rows (last lv) mc)"
proof (induction lv arbitrary: rows nodes)
  case Nil
  then show ?case by simp
next
  case (Cons level lv')
  have keys: "\<forall>r\<in>set rows. \<exists>k. firstLevelValue level r = Inr k"
    using buildHierarchy_keys[OF Cons.prems(1)] by blast
  have "set (leaf_ids n) = set (table_identifiers (group_of level rows (name n)) (last (level # lv')) mc)"
    if n: "n \<in> set nodes" for n
  proof (cases lv')
    case Nil
    with Cons.prems(1) have b: "buildHierarchy cmp rows [level] mc = Inr nodes" by simp
    from n obtain g where g: "group_of level rows g \<noteq> []"
      and "n = Leaf g (spec_identifiers mc g (group_of level rows g))
                 (length (spec_identifiers mc g (group_of level rows g)))"
      unfolding last_level_nodes(1)[OF b] by blast
    with spec_identifiers_group[OF g, of mc] Nil show ?thesis by simp
  next
    case (Cons level' lv'')
    with Cons.prems(1)
    have b: "buildHierarchy cmp rows (level # level' # lv'') mc = Inr nodes" by simp
    from upper_level_nodes(3)[OF b] n obtain ch where
      ng: "n = Group (name n) ch (totalCount ch)"
      and ch: "buildHierarchy cmp (group_of level rows (name n)) lv' mc = Inr ch"
      using Cons by auto
    from Cons have ne: "lv' \<noteq> []" by simp
    have "set (leaf_ids n) = (\<Union>m\<in>set ch. set (leaf_ids m))"
      by (subst ng) simp
    with Cons.IH[OF ch ne] ne show ?thesis by simp
  qed
  then have "(\<Union>n\<in>set nodes. set (leaf_ids n))
      = (\<Union>g\<in>name ` set nodes. set (table_identifiers (group_of level rows g) (last (level # lv')) mc))"
    by simp
  also have "\<dots> = set (table_identifiers rows (last (level # lv')) mc)"
    unfolding level_nodes(2)[OF Cons.prems(1)] using keys by (rule table_identifiers_partition)
  finally show ?case .
qed

lemma totalCount_table_pairs:
  "buildHierarchy cmp rows lv mc = Inr nodes \<Longrightarrow> lv \<noteq> []
     \<Longrightarrow> totalCount nodes = card (pairs_below rows lv (last lv) mc)"
proof (induction lv arbitrary: rows nodes)
  case Nil
  then show ?case by simp
next
  case (Cons level lv')
  have keys: "\<forall>r\<in>set rows. \<exists>k. firstLevelValue level r = Inr k"
    using buildHierarchy_keys[OF Cons.prems(1)] by blast
  let ?ll = "last (level # lv')"
  have "count n = card (pairs_below (group_of level rows (name n)) lv' ?ll mc)"
    if n: "n \<in> set nodes" for n
  proof (cases lv')
    case Nil
    with Cons.prems(1) have b: "buildHierarchy cmp rows [level] mc = Inr nodes" by simp
    from n obtain g where g: "group_of level rows g \<noteq> []"
      and ng: "n = Leaf g (spec_identifiers mc g (group_of level rows g))
                 (length (spec_identifiers mc g (group_of level rows g)))"
      unfolding last_level_nodes(1)[OF b] by blast
    have "distinct (spec_identifiers mc g (group_of level rows g))"
      by (simp add: spec_identifiers_def distinct_first_seen split: option.splits)
    then have "length (spec_identifiers mc g (group_of level rows g))
                 = card (set (table_identifiers (group_of level rows g) level mc))"
      using spec_identifiers_group[OF g, of mc] distinct_card by fastforce
    with ng Nil show ?thesis by (simp add: card_pairs_below_Nil)
  next
    case (Cons level' lv'')
    with Cons.prems(1)
    have b: "buildHierarchy cmp rows (level # level' # lv'') mc = Inr nodes" by simp
    from upper_level_nodes(3)[OF b] n obtain ch where
      ng: "n = Group (name n) ch (totalCount ch)"
      and ch: "buildHierarchy cmp (group_of level rows (name n)) lv' mc = Inr ch"
      using Cons by auto
    from Cons have ne: "lv' \<noteq> []" by simp
    have "count n = totalCount ch" by (subst ng) simp
    with Cons.IH[OF ch ne] ne show ?thesis by simp
  qed
  from sum_over_nodes[OF Cons.prems(1),
      of "\<lambda>g. card (pairs_below (group_of level rows g) lv' ?ll mc)", OF this]
  show ?case
    unfolding card_pairs_below_partition[OF keys] by simp
qed


lemma snd_pairs_below:
  "snd ` pairs_below rows lv ll mc = set (table_identifiers rows ll mc)"
  unfolding set_table_identifiers[of rows] by (force simp add: pairs_below_def)

subsection \<open>The worked inputs, evaluated\<close>

lemma code_unit_compare_consistent: "consistent_comparator code_unit_compare"
  by (auto simp add: consistent_comparator_def code_unit_compare_def)

lemma scenario_A_tree:
  "memoizedHierarchyData code_unit_compare rowsA [js ''Region'', js ''Tier''] (Some (js ''MID''))
     = Inr (Some treeA)"
  by (simp add: rowsA_def treeA_def string_eval object_eval builder_eval)

lemma shared_identifier_tree:
  "memoizedHierarchyData code_unit_compare rows_shared [js ''Region''] (Some (js ''MID''))
     = Inr (Some tree_shared)"
  by (simp add: rows_shared_def tree_shared_def string_eval object_eval builder_eval)

lemma buildHierarchy_rows_tiers:
  "buildHierarchy code_unit_compare rows_tiers [js ''Region'', js ''Tier''] (Some (js ''MID''))
     = Inr nodes_tiers"
  by (simp add: rows_tiers_def nodes_tiers_def string_eval object_eval builder_eval)

lemma filter_nodes_tiers:
  "trim (js ''gold'') \<noteq> []
   \<and> filterHierarchy ascii_toLowerCase nodes_tiers (js ''gold'')
       = [Group (js ''East'') [Leaf (js ''Gold'') [js ''m1''] 1] 2]"
  by (simp add: nodes_tiers_def string_eval controller_eval)

section \<open>The claims\<close>

subsection \<open>C1: counts\<close>

text \<open>
  Claim C1 says that every node's count is the number of distinct identifier values in its
  subtree, and the root's the number of distinct identifier values of the whole table.
  The builder sums: two rows in different regions with the same identifier \<open>m1\<close>
  give a root of count 2 over a table with one distinct identifier.
\<close>

theorem count_exceeds_distinct_identifiers:
  "memoizedHierarchyData code_unit_compare rows_shared [js ''Region''] (Some (js ''MID''))
     = Inr (Some tree_shared)
   \<and> count tree_shared = 2
   \<and> card (set (leaf_ids tree_shared)) = 1
   \<and> card (set (id_values (js ''MID'') rows_shared)) = 1"
  using shared_identifier_tree
  by (simp add: tree_shared_def rows_shared_def id_values_def string_eval)

text \<open>
  C1 as amended: in the tree under the \<open>All Accounts\<close> root, every node's count is
  the total of the sizes of the identifier sets of the leaves in its subtree (a leaf's
  identifiers are distinct and its count is their number; a group's count is the sum of its
  children's counts). It is never below the number of distinct identifier values in the
  subtree, and equals it exactly when no identifier value occurs in two leaves of the
  subtree. The identifier values under the root are exactly the identifier values of the
  table (the trimmed non-empty values of the identifier column over all rows, when one is
  set). The root's count is the number of distinct pairs of a row's level values and one of
  its identifiers: it is never below the number of distinct identifier values of the table,
  and equals it exactly when no identifier value of the table occurs with two different
  lists of level values.
\<close>

theorem count_is_total_of_leaf_identifiers:
  assumes "memoizedHierarchyData cmp rows lv mc = Inr (Some root)"
    and "n \<in> set (root # descendants root)"
  shows "count n = length (leaf_ids n)
         \<and> card (set (leaf_ids n)) \<le> count n
         \<and> (count n = card (set (leaf_ids n)) \<longleftrightarrow> distinct (leaf_ids n))
         \<and> (case n of Leaf nm ms c \<Rightarrow> distinct ms \<and> c = card (set ms)
               | Group nm ch c \<Rightarrow> c = sum_list (map count ch))
         \<and> set (leaf_ids root) = set (table_identifiers rows (last lv) mc)
         \<and> count root = card (set (table_pairs rows lv mc))
         \<and> card (set (table_identifiers rows (last lv) mc)) \<le> count root
         \<and> (count root = card (set (table_identifiers rows (last lv) mc))
              \<longleftrightarrow> inj_on snd (set (table_pairs rows lv mc)))
         \<and> (case mc of
               None \<Rightarrow> True
             | Some c \<Rightarrow> c = [] \<or> set (leaf_ids root) = set (id_values c rows))"
proof -
  from assms(1) obtain nodes where b: "buildHierarchy cmp rows lv mc = Inr nodes"
    and root: "root = Group (js ''All Accounts'') nodes (totalCount nodes)"
    and lv: "lv \<noteq> []"
    by (auto simp add: memoizedHierarchyData_def split: if_splits sum.splits)
  from buildHierarchy_well_counted[OF b] have wr: "well_counted root"
    by (simp add: root totalCount_well_counted)
  with assms(2) have wc: "well_counted n"
    using well_counted_descendants by auto
  have shape: "case n of Leaf nm ms c \<Rightarrow> distinct ms \<and> c = card (set ms)
               | Group nm ch c \<Rightarrow> c = sum_list (map count ch)"
  proof (cases n)
    case (Leaf nm ms c)
    with wc show ?thesis by (simp add: distinct_card)
  next
    case (Group nm ch c)
    with wc have "list_all well_counted ch" "c = length (concat (map leaf_ids ch))" by simp_all
    with Group show ?thesis
      using totalCount_well_counted[of ch] by (simp add: totalCount_sum)
  qed
  have ids: "set (leaf_ids root) = set (table_identifiers rows (last lv) mc)"
    using leaf_ids_table_identifiers[OF b lv] by (simp add: root)
  have pairs: "count root = card (set (table_pairs rows lv mc))"
    using totalCount_table_pairs[OF b lv] by (simp add: root set_table_pairs)
  have le: "card (set (table_identifiers rows (last lv) mc)) \<le> count root"
    using count_vs_distinct(1)[OF wr] by (simp add: ids)
  have "inj_on snd (set (table_pairs rows lv mc))
        \<longleftrightarrow> card (snd ` set (table_pairs rows lv mc)) = card (set (table_pairs rows lv mc))"
    by (rule inj_on_iff_eq_card) simp
  then have inj: "count root = card (set (table_identifiers rows (last lv) mc))
              \<longleftrightarrow> inj_on snd (set (table_pairs rows lv mc))"
    using pairs by (auto simp add: set_table_pairs snd_pairs_below)
  have col: "case mc of
               None \<Rightarrow> True
             | Some c \<Rightarrow> c = [] \<or> set (leaf_ids root) = set (id_values c rows)"
    using ids by (simp add: table_identifiers_def split: option.splits)
  from wc shape ids pairs le inj col show ?thesis
    using count_vs_distinct[OF wc] by (simp add: well_counted_count)
qed

theorem count_is_total_of_leaf_identifiers_witness:
  "memoizedHierarchyData code_unit_compare rowsA [js ''Region'', js ''Tier''] (Some (js ''MID''))
     = Inr (Some treeA)
   \<and> count treeA = 3
   \<and> set (leaf_ids treeA) = set (id_values (js ''MID'') rowsA)
   \<and> card (set (table_pairs rowsA [js ''Region'', js ''Tier''] (Some (js ''MID'')))) = 3
   \<and> card (set (id_values (js ''MID'') rowsA)) = 3"
proof -
  have d: "distinct (leaf_ids treeA)" "count treeA = 3"
    by (simp_all add: treeA_def js_def)
  have t: "table_identifiers rowsA (js ''Tier'') (Some (js ''MID'')) = id_values (js ''MID'') rowsA"
    by (simp add: table_identifiers_def js_def)
  note c1 = count_is_total_of_leaf_identifiers[OF scenario_A_tree list.set_intros(1)]
  note c5 = c1[THEN conjunct2, THEN conjunct2, THEN conjunct2, THEN conjunct2]
  from c5[THEN conjunct1] have ids: "set (leaf_ids treeA) = set (id_values (js ''MID'') rowsA)"
    by (simp add: t)
  note c5[THEN conjunct2, THEN conjunct1]
  with d have pairs:
    "card (set (table_pairs rowsA [js ''Region'', js ''Tier''] (Some (js ''MID'')))) = 3"
    by simp
  from c1[THEN conjunct1] d have "card (set (leaf_ids treeA)) = 3" by (simp add: distinct_card)
  then have "card (set (id_values (js ''MID'') rowsA)) = 3" by (simp add: ids)
  with scenario_A_tree d ids pairs show ?thesis by simp
qed

subsection \<open>C2: clearing the query\<close>

text \<open>
  Claim C2 says that clearing the query restores the expansion state to its value before
  the search. With nothing expanded before the search the saved copy is the empty object,
  which the effect takes for "no copy held": on scenario A's tree, typing \<open>gol\<close>
  expands \<open>root-0\<close>, and clearing the query leaves it expanded.
\<close>

theorem clearing_search_keeps_auto_expansion:
  "expandedNodes initial_state = []
   \<and> run ascii_toLowerCase (Some treeA) initial_state [Type (js ''gol''), Type []]
       = \<lparr>expandedNodes = [(js ''root-0'', True)], searchQuery = [],
          originalExpandedState = []\<rparr>
   \<and> \<not> isExpanded [] (js ''root-0'')
   \<and> isExpanded [(js ''root-0'', True)] (js ''root-0'')"
  by (simp add: treeA_def string_eval object_eval controller_eval)

subsection \<open>C3: the validator without rows\<close>

text \<open>
  Claim C3 says that without rows the validator returns no warnings, and an error only
  when no level is selected. A mapping with the level \<open>Region\<close> selected twice and
  the alias \<open>X\<close> given twice gets an error and a warning without any rows.
\<close>

theorem validate_without_rows_counterexample:
  "levels validation_example \<noteq> []
   \<and> validateMapping [] validation_example =
       Inr \<lparr>errors = [js ''Duplicate headers across levels or with MID.''],
            warnings = [js ''Duplicate alias names may cause confusion in preview: X.'']\<rparr>"
  by (simp add: validation_example_def validateMapping_def hasDuplicateSelections_def
        getDuplicateAliases_def new_Set_def Let_def string_eval object_eval)

text \<open>
  C3 as amended: for every mapping the validator returns on an empty list of rows; its
  errors are non-empty exactly when no level is selected or a column is selected twice
  among the levels and the identifier column; it has no warning about missing values: its
  only warning is the one about duplicate aliases, present exactly when two non-empty
  aliases coincide.
\<close>

theorem validate_without_rows:
  "\<exists>v. validateMapping [] m = Inr v
     \<and> (errors v \<noteq> [] \<longleftrightarrow> levels m = [] \<or> \<not> distinct (selections m))
     \<and> (warnings v \<noteq> [] \<longleftrightarrow> \<not> distinct (aliases m))
     \<and> warnings v =
          (if distinct (aliases m) then []
           else [js ''Duplicate alias names may cause confusion in preview: ''
                   @ join (js '', '') (getDuplicateAliases m) @ js ''.''])"
  by (simp add: validateMapping_def Let_def hasDuplicateSelections_iff
        getDuplicateAliases_empty_iff)

theorem validate_without_rows_witness:
  "validateMapping [] validation_example =
       Inr \<lparr>errors = [js ''Duplicate headers across levels or with MID.''],
            warnings = [js ''Duplicate alias names may cause confusion in preview: X.'']\<rparr>
   \<and> \<not> distinct (selections validation_example) \<and> \<not> distinct (aliases validation_example)"
  using validate_without_rows[of validation_example]
  by (simp add: validation_example_def validateMapping_def hasDuplicateSelections_def
        getDuplicateAliases_def new_Set_def Let_def string_eval object_eval selections_def
        aliases_def)

subsection \<open>C4: the saved snapshot\<close>

text \<open>
  Claim C4 says that editing a non-empty query leaves the saved snapshot unchanged. With
  nothing expanded before the search, the snapshot taken on typing \<open>g\<close> is the empty
  object; on typing \<open>go\<close> the effect replaces it by the expansion state of the search
  itself.
\<close>

theorem snapshot_overwritten_on_query_edit:
  "run ascii_toLowerCase (Some treeA) initial_state [Type (js ''g'')]
       = \<lparr>expandedNodes = [(js ''root-0'', True)], searchQuery = js ''g'',
          originalExpandedState = []\<rparr>
   \<and> run ascii_toLowerCase (Some treeA) initial_state [Type (js ''g''), Type (js ''go'')]
       = \<lparr>expandedNodes = [(js ''root-0'', True)], searchQuery = js ''go'',
          originalExpandedState = [(js ''root-0'', True)]\<rparr>"
  by (simp add: treeA_def string_eval object_eval controller_eval)

subsection \<open>C5: unnecessary toggles\<close>

text \<open>
  Claim C5 says that a reconciliation never toggles a path that is already at its target
  value. After \<open>root-1\<close> was expanded and collapsed again by two clicks, a query
  that matches nothing has no path to expand, and the effect still toggles
  \<open>root-1\<close>, which it finds collapsed and leaves expanded.
\<close>

theorem reconcile_toggles_collapsed_path:
  "run ascii_toLowerCase (Some treeA) initial_state [Click (js ''root-1''), Click (js ''root-1'')]
       = \<lparr>expandedNodes = [(js ''root-1'', False)], searchQuery = [],
          originalExpandedState = []\<rparr>
   \<and> expandMatchingNodes ascii_toLowerCase (js ''zzz'')
         (filteredHierarchy ascii_toLowerCase (Some treeA) (js ''zzz'')) [] 0 [] = []
   \<and> \<not> isExpanded [(js ''root-1'', False)] (js ''root-1'')
   \<and> searchEffect ascii_toLowerCase (Some treeA) True
         \<lparr>expandedNodes = [(js ''root-1'', False)], searchQuery = js ''zzz'',
          originalExpandedState = []\<rparr>
       = ([js ''root-1''], [(js ''root-1'', False)])
   \<and> run ascii_toLowerCase (Some treeA) initial_state
         [Click (js ''root-1''), Click (js ''root-1''), Type (js ''zzz'')]
       = \<lparr>expandedNodes = [(js ''root-1'', True)], searchQuery = js ''zzz'',
          originalExpandedState = [(js ''root-1'', False)]\<rparr>"
  by (simp add: treeA_def string_eval object_eval controller_eval)

subsection \<open>C6: what the filter retains\<close>

text \<open>
  Claim C6: the filter keeps, in order, exactly the nodes that match in the specification's
  sense or have a child that survives the filter; a kept group gets the filtered list of
  its children, a kept leaf is unchanged. This holds for every query: for a blank one every
  node matches and the filter returns its input.
\<close>

theorem filterHierarchy_retains:
  "filterHierarchy l nodes q =
     map (\<lambda>node. case node of
                   Group nm ch c \<Rightarrow> Group nm (filterHierarchy l ch q) c
                 | Leaf nm ms c \<Rightarrow> node)
       (filter (\<lambda>node. spec_matches l node q
                  \<or> (case node of
                         Group nm ch c \<Rightarrow> filterHierarchy l ch q \<noteq> []
                       | Leaf nm ms c \<Rightarrow> False))
               nodes)"
proof (cases "trim q = []")
  case False
  then show ?thesis by (simp add: filterHierarchy_unfold nodeMatchesSearch_spec)
next
  case True
  have "(case node of Group nm ch c \<Rightarrow> Group nm (filterHierarchy l ch q) c
          | Leaf nm ms c \<Rightarrow> node) = node" for node
    using True by (cases node) (simp_all add: filterHierarchy_blank)
  with True show ?thesis
    by (simp add: filterHierarchy_blank spec_matches_def)
qed

theorem filterHierarchy_retains_witness:
  "trim (js ''gold'') \<noteq> []
   \<and> filterHierarchy ascii_toLowerCase nodes_tiers (js ''gold'')
       = [Group (js ''East'') [Leaf (js ''Gold'') [js ''m1''] 1] 2]"
proof -
  have t: "trim (js ''gold'') \<noteq> []" using filter_nodes_tiers by simp
  show ?thesis
    using t filterHierarchy_retains[of ascii_toLowerCase nodes_tiers "js ''gold''"]
    by (simp add: nodes_tiers_def spec_matches_def own_hit_def string_eval controller_eval)
qed

subsection \<open>C7: sibling order\<close>

text \<open>
  Claim C7: for every consistent collation, the nodes the builder returns are sorted by
  name at every depth.
\<close>

theorem buildHierarchy_sorted:
  "consistent_comparator cmp \<Longrightarrow> buildHierarchy cmp rows lv mc = Inr nodes
     \<Longrightarrow> sorted_forest cmp nodes"
proof (induction cmp rows lv mc arbitrary: nodes rule: buildHierarchy.induct)
  case (1 cmp rows mc)
  then show ?case
    by (subst sorted_forest.simps) (auto split: if_splits sum.splits)
next
  case (2 cmp rows level mc)
  show ?case
  proof (cases "rows = []")
    case True
    with "2.prems" show ?thesis by (subst sorted_forest.simps) simp
  next
    case False
    from "2.prems"(2) False show ?thesis
      by (rule buildHierarchy_leaf_case) (simp add: sorted_forest_leaves[OF "2.prems"(1)])
  qed
next
  case (3 cmp rows level level' lv mc)
  show ?case
  proof (cases "rows = []")
    case True
    with "3.prems" show ?thesis by (subst sorted_forest.simps) simp
  next
    case False
    from "3.prems"(2) False obtain groups pre where
      g: "group_rows level rows [] = Inr groups"
      and pre: "list_all2 (\<lambda>kg n. \<exists>ch. buildHierarchy cmp (snd kg) (level' # lv) mc = Inr ch
                              \<and> n = Group (fst kg) ch (totalCount ch))
           (Object_entries groups) pre"
      and n: "nodes = sort_nodes cmp pre"
      by (rule buildHierarchy_group_case)
    have "\<forall>n\<in>set pre. \<exists>nm ch c. n = Group nm ch c \<and> sorted_forest cmp ch"
    proof
      fix n assume "n \<in> set pre"
      with list_all2_set2[OF pre] obtain kg ch where kg: "kg \<in> set (Object_entries groups)"
        and ch: "buildHierarchy cmp (snd kg) (level' # lv) mc = Inr ch"
        and "n = Group (fst kg) ch (totalCount ch)"
        by blast
      moreover have "sorted_forest cmp ch"
        using "3.IH"[OF False g _ _ "3.prems"(1) ch, of kg "fst kg"] kg
        by (simp add: prod_eq_iff)
      ultimately show "\<exists>nm ch c. n = Group nm ch c \<and> sorted_forest cmp ch" by blast
    qed
    then show ?thesis
      unfolding n
      by (subst sorted_forest.simps)
         (auto simp add: sorted_sort_nodes[OF "3.prems"(1)] list_all_iff set_sort_nodes)
  qed
qed

theorem buildHierarchy_sorted_witness:
  "buildHierarchy code_unit_compare rowsA [js ''Region'', js ''Tier''] (Some (js ''MID''))
     = Inr (children treeA)
   \<and> sorted_forest code_unit_compare (children treeA)"
proof -
  have b: "buildHierarchy code_unit_compare rowsA [js ''Region'', js ''Tier''] (Some (js ''MID''))
     = Inr (children treeA)"
    by (simp add: rowsA_def treeA_def string_eval object_eval builder_eval)
  from buildHierarchy_sorted[OF code_unit_compare_consistent b] b show ?thesis by simp
qed

subsection \<open>C8: the leaves of the last level\<close>

text \<open>
  Claim C8: called with one remaining level, the builder returns one leaf for each group
  of the rows, named by the group's key. With an identifier column set (a non-empty
  column name), the leaf's identifiers are the distinct trimmed non-empty values of that
  column over the group's rows in order of first occurrence, and its count is the number of
  these values; without one, the identifiers are the group's key alone and the count is 1.
\<close>

theorem last_level_leaf_identifiers:
  assumes "buildHierarchy cmp rows [level] mc = Inr nodes"
  shows "distinct (map name nodes)
     \<and> name ` set nodes = {g. group_of level rows g \<noteq> []}
     \<and> (\<forall>n\<in>set nodes. \<exists>ids. n = Leaf (name n) ids (length ids) \<and> distinct ids
           \<and> (case mc of
                 None \<Rightarrow> ids = [name n]
               | Some c \<Rightarrow>
                   if c = [] then ids = [name n]
                   else ids = first_seen (id_values c (group_of level rows (name n)))
                        \<and> set ids = set (id_values c (group_of level rows (name n)))
                        \<and> length ids = card (set (id_values c (group_of level rows (name n))))))"
proof (intro conjI ballI)
  show "distinct (map name nodes)" using assms by (rule last_level_nodes(2))
  show "name ` set nodes = {g. group_of level rows g \<noteq> []}"
    unfolding last_level_nodes(1)[OF assms] by (auto simp add: image_iff)
  fix n assume "n \<in> set nodes"
  then obtain g where n: "n = Leaf g (spec_identifiers mc g (group_of level rows g))
                   (length (spec_identifiers mc g (group_of level rows g)))"
    unfolding last_level_nodes(1)[OF assms] by blast
  let ?ids = "spec_identifiers mc g (group_of level rows g)"
  have "distinct ?ids"
    by (simp add: spec_identifiers_def new_Set_first_seen[symmetric] distinct_new_Set
          split: option.splits)
  moreover have "case mc of
                 None \<Rightarrow> ?ids = [name n]
               | Some c \<Rightarrow>
                   if c = [] then ?ids = [name n]
                   else ?ids = first_seen (id_values c (group_of level rows (name n)))
                        \<and> set ?ids = set (id_values c (group_of level rows (name n)))
                        \<and> length ?ids = card (set (id_values c (group_of level rows (name n))))"
    by (simp add: n spec_identifiers_def new_Set_first_seen[symmetric] set_new_Set
          length_new_Set split: option.splits)
  ultimately show "\<exists>ids. n = Leaf (name n) ids (length ids) \<and> distinct ids
           \<and> (case mc of
                 None \<Rightarrow> ids = [name n]
               | Some c \<Rightarrow>
                   if c = [] then ids = [name n]
                   else ids = first_seen (id_values c (group_of level rows (name n)))
                        \<and> set ids = set (id_values c (group_of level rows (name n)))
                        \<and> length ids = card (set (id_values c (group_of level rows (name n)))))"
    using n by (intro exI[of _ ?ids]) simp
qed

theorem last_level_leaf_identifiers_witness:
  "buildHierarchy code_unit_compare rowsA [js ''Tier''] (Some (js ''MID''))
     = Inr [Leaf (js ''Gold'') [js ''m1'', js ''m2''] 2, Leaf em_dash [js ''m3''] 1]
   \<and> {g. group_of (js ''Tier'') rowsA g \<noteq> []} = {js ''Gold'', em_dash}"
proof -
  have b: "buildHierarchy code_unit_compare rowsA [js ''Tier''] (Some (js ''MID''))
     = Inr [Leaf (js ''Gold'') [js ''m1'', js ''m2''] 2, Leaf em_dash [js ''m3''] 1]"
    by (simp add: rowsA_def string_eval object_eval builder_eval)
  from last_level_leaf_identifiers[OF b] b show ?thesis by auto
qed

subsection \<open>C9: groups without identifiers\<close>



subsection \<open>C10: what the filter leaves alone\<close>

text \<open>
  Claim C10: for a non-blank query, every group anywhere in the filtered tree is a group of
  the original tree with the same name and the same count, its children replaced by their
  filtered list. So a count can exceed the sum of the counts of the children still shown:
  on the tree built from two tiers under one region, the query \<open>gold\<close> keeps the
  region with count 2 over one leaf of count 1.
\<close>

theorem filtered_group_keeps_name_and_count:
  "(trim q \<noteq> [] \<and> Group nm ch c \<in> set (forest_nodes (filterHierarchy l nodes q))
      \<longrightarrow> (\<exists>ch0. Group nm ch0 c \<in> set (forest_nodes nodes) \<and> ch = filterHierarchy l ch0 q))
   \<and> (\<exists>cmp rows lv mc built lower query gn gch gc.
         buildHierarchy cmp rows lv mc = Inr built \<and> trim query \<noteq> []
         \<and> Group gn gch gc \<in> set (filterHierarchy lower built query)
         \<and> totalCount gch < gc)"
proof (intro conjI impI)
  assume "trim q \<noteq> [] \<and> Group nm ch c \<in> set (forest_nodes (filterHierarchy l nodes q))"
  then show "\<exists>ch0. Group nm ch0 c \<in> set (forest_nodes nodes) \<and> ch = filterHierarchy l ch0 q"
    using filter_groups_origin by blast
next
  have "Group (js ''East'') [Leaf (js ''Gold'') [js ''m1''] 1] 2
          \<in> set (filterHierarchy ascii_toLowerCase nodes_tiers (js ''gold''))"
    using filter_nodes_tiers by simp
  moreover have "totalCount [Leaf (js ''Gold'') [js ''m1''] 1] < 2"
    by (simp add: totalCount_def)
  ultimately show "\<exists>cmp rows lv mc built lower query gn gch gc.
         buildHierarchy cmp rows lv mc = Inr built \<and> trim query \<noteq> []
         \<and> Group gn gch gc \<in> set (filterHierarchy lower built query)
         \<and> totalCount gch < gc"
    using buildHierarchy_rows_tiers filter_nodes_tiers by blast
qed

theorem filtered_group_keeps_name_and_count_witness:
  "\<exists>ch0. Group (js ''East'') ch0 2 \<in> set (forest_nodes nodes_tiers)
         \<and> [Leaf (js ''Gold'') [js ''m1''] 1] = filterHierarchy ascii_toLowerCase ch0 (js ''gold'')"
proof -
  have "Group (js ''East'') [Leaf (js ''Gold'') [js ''m1''] 1] 2
          \<in> set (forest_nodes (filterHierarchy ascii_toLowerCase nodes_tiers (js ''gold'')))"
    using filter_nodes_tiers by (simp add: forest_nodes_def)
  with filter_nodes_tiers show ?thesis
    using filtered_group_keeps_name_and_count
            [of "js ''gold''" "js ''East''" "[Leaf (js ''Gold'') [js ''m1''] 1]" 2
                ascii_toLowerCase nodes_tiers]
    by blast
qed


end
